theory Spec2Isabelle
  imports Complex_Main
begin

unbundle bit_operations_syntax

section \<open>Tesseract of Time: the hypercube sketch (sketch.js)\<close>

subsection \<open>JavaScript values and faults\<close>

text \<open>
  The only fault the modelled code can raise is the \<open>TypeError\<close> of reading a property
  of \<open>undefined\<close>. A fallible computation returns \<open>js_error + 'a\<close>, \<open>Inl\<close> the fault.
  An array whose entries may be \<open>undefined\<close> is a list of options; reading past its end
  gives \<open>undefined\<close> as well.
\<close>

datatype js_error = TypeError

definition js_index :: "'a option list \<Rightarrow> nat \<Rightarrow> 'a option" where
  "js_index xs i = (if i < length xs then xs ! i else None)"

subsection \<open>State of the sketch\<close>

text \<open>
  A projected point is the object \<open>{x, y, depth, w}\<close> that \<open>project4Dto2D\<close> returns; a
  history segment is the pair \<open>[{x, y}, {x, y}]\<close> pushed by \<open>serializeFrame\<close>; a draw call
  is \<open>line(x1, y1, x2, y2)\<close> on the drawing surface.
\<close>

record point2D =
  pt_x :: real
  pt_y :: real
  pt_depth :: real
  pt_w :: real

type_synonym segment = "(real \<times> real) \<times> (real \<times> real)"

datatype draw_call = Line real real real real

record sketch =
  verts4D :: "int list list"
  edges :: "(nat \<times> nat) list"
  history :: "segment list list"
  paused :: bool

definition HISTORY_MAX :: nat where
  "HISTORY_MAX = 42"

subsection \<open>initTesseract\<close>

text \<open>
  \<open>v[d] = ((a >> d) & 1) ? 1 : -1\<close> for \<open>d = 0..3\<close>. On the integers 0..15 the signed
  shift \<open>>>\<close> is \<open>drop_bit\<close> and \<open>&\<close> is \<open>AND\<close>.
\<close>

definition vertex_of :: "nat \<Rightarrow> int list" where
  "vertex_of a =
     foldl (\<lambda>v d. v @ [if drop_bit d (int a) AND 1 \<noteq> 0 then 1 else - 1]) [] [0..<4]"

definition init_verts :: "int list list" where
  "init_verts = foldl (\<lambda>vs a. vs @ [vertex_of a]) [] [0..<16]"

text \<open>
  The innermost loop counts the coordinates \<open>k < 4\<close> in which two vertices differ. Both
  indices are below the length of the vertex list and every vertex has four entries.
\<close>

definition diffs :: "int list list \<Rightarrow> nat \<Rightarrow> nat \<Rightarrow> nat" where
  "diffs vs i j = foldl (\<lambda>n k. if vs ! i ! k \<noteq> vs ! j ! k then n + 1 else n) 0 [0..<4]"

definition init_edges :: "int list list \<Rightarrow> (nat \<times> nat) list" where
  "init_edges vs =
     foldl (\<lambda>es i.
        foldl (\<lambda>es j. if diffs vs i j = 1 then es @ [(i, j)] else es) es [i + 1..<length vs])
       [] [0..<length vs]"

definition initTesseract :: "sketch \<Rightarrow> sketch" where
  "initTesseract s = s\<lparr>verts4D := init_verts, edges := init_edges init_verts\<rparr>"

text \<open>The notions the specification uses to describe the result.\<close>

definition hamming :: "int list \<Rightarrow> int list \<Rightarrow> nat" where
  "hamming v u = length (filter (\<lambda>(a, b). a \<noteq> b) (zip v u))"

definition degree :: "(nat \<times> nat) list \<Rightarrow> nat \<Rightarrow> nat" where
  "degree es k = length (filter (\<lambda>e. fst e = k \<or> snd e = k) es)"

subsection \<open>The rotation rate in draw\<close>

text \<open>
  \<open>dist\<close>, \<open>constrain\<close> and \<open>map\<close> are functions of the p5.js library. \<open>map\<close> re-maps a
  number linearly from one range to another and constrains the result to the target
  range only when its sixth argument \<open>withinBounds\<close> is given and true.
\<close>

definition dist_p5 :: "real \<Rightarrow> real \<Rightarrow> real \<Rightarrow> real \<Rightarrow> real" where
  "dist_p5 x1 y1 x2 y2 = sqrt ((x2 - x1)\<^sup>2 + (y2 - y1)\<^sup>2)"

definition constrain_p5 :: "real \<Rightarrow> real \<Rightarrow> real \<Rightarrow> real" where
  "constrain_p5 n low high = max (min n high) low"

definition map_p5 :: "real \<Rightarrow> real \<Rightarrow> real \<Rightarrow> real \<Rightarrow> real \<Rightarrow> bool \<Rightarrow> real" where
  "map_p5 n start1 stop1 start2 stop2 withinBounds =
     (let newval = (n - start1) / (stop1 - start1) * (stop2 - start2) + start2 in
      if \<not> withinBounds then newval
      else if start2 < stop2 then constrain_p5 newval start2 stop2
      else constrain_p5 newval stop2 start2)"

text \<open>
  \<open>let baseSpeed = 0.0015 + map(dist(mx, my, pmouseX, pmouseY), 0, 60, 0, 0.02)\<close>: the
  call passes five arguments, so \<open>withinBounds\<close> is absent.
\<close>

definition draw_baseSpeed :: "real \<Rightarrow> real \<Rightarrow> real \<Rightarrow> real \<Rightarrow> real" where
  "draw_baseSpeed mx my pmouseX pmouseY =
     0.0015 + map_p5 (dist_p5 mx my pmouseX pmouseY) 0 60 0 0.02 False"

subsection \<open>rotate4D\<close>

text \<open>
  The vector is the array \<open>[x, y, z, w]\<close>; every call passes four numbers. An unknown
  plane name falls through the \<open>switch\<close> and returns the vector as it is.
\<close>

definition rotate4D :: "real list \<Rightarrow> string \<Rightarrow> real \<Rightarrow> real list" where
  "rotate4D v plane t =
     (let x = v ! 0; y = v ! 1; z = v ! 2; w = v ! 3; c = cos t; s = sin t in
      if plane = ''xy'' then [x * c - y * s, x * s + y * c, z, w]
      else if plane = ''xz'' then [x * c - z * s, y, x * s + z * c, w]
      else if plane = ''xw'' then [x * c - w * s, y, z, x * s + w * c]
      else if plane = ''yz'' then [x, y * c - z * s, y * s + z * c, w]
      else if plane = ''yw'' then [x, y * c - w * s, z, y * s + w * c]
      else if plane = ''zw'' then [x, y, z * c - w * s, z * s + w * c]
      else v)"

definition norm4 :: "real list \<Rightarrow> real" where
  "norm4 v = sqrt (sum_list (map (\<lambda>a. a\<^sup>2) v))"

definition planes :: "string list" where
  "planes = [''xy'', ''xz'', ''xw'', ''yz'', ''yw'', ''zw'']"

subsection \<open>serializeFrame and the edge loop of draw\<close>

text \<open>
  Reading \<open>a.x\<close> and \<open>a.y\<close> faults when \<open>a\<close> is \<open>undefined\<close>. Both loops test
  \<open>if (!a || !b) continue\<close> first; a projected point is an object, so \<open>!a\<close> holds exactly
  when \<open>a\<close> is \<open>undefined\<close>.
\<close>

fun read_xy :: "point2D option \<Rightarrow> js_error + (real \<times> real)" where
  "read_xy None = Inl TypeError"
| "read_xy (Some p) = Inr (pt_x p, pt_y p)"

fun serializeFrame_loop ::
  "(nat \<times> nat) list \<Rightarrow> point2D option list \<Rightarrow> segment list \<Rightarrow> js_error + segment list" where
  "serializeFrame_loop [] points2D segs = Inr segs"
| "serializeFrame_loop (e # es) points2D segs =
     (let a = js_index points2D (fst e); b = js_index points2D (snd e) in
      if a = None \<or> b = None then serializeFrame_loop es points2D segs
      else
        (case read_xy a of
           Inl err \<Rightarrow> Inl err
         | Inr pa \<Rightarrow>
             (case read_xy b of
                Inl err \<Rightarrow> Inl err
              | Inr pb \<Rightarrow> serializeFrame_loop es points2D (segs @ [(pa, pb)]))))"

definition serializeFrame :: "(nat \<times> nat) list \<Rightarrow> point2D option list \<Rightarrow> js_error + segment list" where
  "serializeFrame es points2D = serializeFrame_loop es points2D []"

fun draw_edges_loop ::
  "(nat \<times> nat) list \<Rightarrow> point2D option list \<Rightarrow> draw_call list \<Rightarrow> js_error + draw_call list" where
  "draw_edges_loop [] points2D out = Inr out"
| "draw_edges_loop (e # es) points2D out =
     (let a = js_index points2D (fst e); b = js_index points2D (snd e) in
      if a = None \<or> b = None then draw_edges_loop es points2D out
      else
        (case read_xy a of
           Inl err \<Rightarrow> Inl err
         | Inr pa \<Rightarrow>
             (case read_xy b of
                Inl err \<Rightarrow> Inl err
              | Inr pb \<Rightarrow>
                  draw_edges_loop es points2D (out @ [Line (fst pa) (snd pa) (fst pb) (snd pb)]))))"

definition draw_edges :: "(nat \<times> nat) list \<Rightarrow> point2D option list \<Rightarrow> js_error + draw_call list" where
  "draw_edges es points2D = draw_edges_loop es points2D []"

text \<open>What the specification says of the two loops: the edges with both endpoints defined.\<close>

definition both_defined :: "point2D option list \<Rightarrow> nat \<times> nat \<Rightarrow> bool" where
  "both_defined points2D e =
     (js_index points2D (fst e) \<noteq> None \<and> js_index points2D (snd e) \<noteq> None)"

definition segment_of :: "point2D option list \<Rightarrow> nat \<times> nat \<Rightarrow> segment" where
  "segment_of points2D e =
     (let a = the (js_index points2D (fst e)); b = the (js_index points2D (snd e)) in
      ((pt_x a, pt_y a), (pt_x b, pt_y b)))"

definition line_of :: "point2D option list \<Rightarrow> nat \<times> nat \<Rightarrow> draw_call" where
  "line_of points2D e =
     (let a = the (js_index points2D (fst e)); b = the (js_index points2D (snd e)) in
      Line (pt_x a) (pt_y a) (pt_x b) (pt_y b))"

subsection \<open>The shimmer loop, the history buffer and the edges in draw\<close>

text \<open>
  What one call of \<open>draw\<close> works on: the projected points \<open>points2D\<close>, the pointer
  \<open>velocity\<close> and the \<open>lingerTime\<close>, which the call computes from the rotation angles, the
  pointer, the clock and \<open>lingerStart\<close>.
\<close>

record tick =
  tick_points2D :: "point2D option list"
  tick_velocity :: real
  tick_lingerTime :: real

text \<open>
  The shimmer of \<open>draw\<close>: when \<open>velocity < 0.4\<close>, for \<open>i = 1 .. layers\<close> with
  \<open>layers = min(9, floor(lingerTime * 1.8))\<close> one closed shape through all points,
  \<open>for (let v of points2D) vertex(v.x, v.y)\<close>. The loop has no test for an undefined
  entry, and the iteration visits every index of the array, so reading \<open>v.x\<close> faults on one.
\<close>

fun shimmer_vertices :: "point2D option list \<Rightarrow> js_error + (real \<times> real) list" where
  "shimmer_vertices [] = Inr []"
| "shimmer_vertices (v # vs) =
     (case read_xy v of
        Inl err \<Rightarrow> Inl err
      | Inr xy \<Rightarrow>
          (case shimmer_vertices vs of
             Inl err \<Rightarrow> Inl err
           | Inr rest \<Rightarrow> Inr (xy # rest)))"

fun shimmer_layers :: "nat \<Rightarrow> point2D option list \<Rightarrow> js_error + unit" where
  "shimmer_layers 0 points2D = Inr ()"
| "shimmer_layers (Suc n) points2D =
     (case shimmer_vertices points2D of
        Inl err \<Rightarrow> Inl err
      | Inr shape \<Rightarrow> shimmer_layers n points2D)"

definition draw_shimmer :: "tick \<Rightarrow> js_error + unit" where
  "draw_shimmer t =
     (if tick_velocity t < 0.4
      then shimmer_layers (nat (min 9 \<lfloor>tick_lingerTime t * 1.8\<rfloor>)) (tick_points2D t)
      else Inr ())"

text \<open>
  One call of \<open>draw\<close>, for the history, the current edges and the shimmer. A paused call
  returns at once. Otherwise the call pushes \<open>serializeFrame(points2D)\<close> onto the
  history, shifts the oldest frame out when the length exceeds \<open>HISTORY_MAX\<close>, draws the
  current edges and then the shimmer. The result lists the lines of the current edges;
  the shapes of the shimmer and the drawing of fade, ghost layers, burst, centre dot and
  HUD are not listed, and the writes to the rotation angles, the pointer record, the
  burst cooldown and \<open>lingerStart\<close> are not part of the state modelled here. \<open>Inr\<close>
  says that the statements modelled here ran to their end.
\<close>

definition draw :: "tick \<Rightarrow> sketch \<Rightarrow> js_error + (sketch \<times> draw_call list)" where
  "draw t s =
     (if paused s then Inr (s, [])
      else
        (case serializeFrame (edges s) (tick_points2D t) of
           Inl err \<Rightarrow> Inl err
         | Inr frame \<Rightarrow>
             (let h = history s @ [frame];
                  h' = (if length h > HISTORY_MAX then tl h else h) in
              (case draw_edges (edges s) (tick_points2D t) of
                 Inl err \<Rightarrow> Inl err
               | Inr ls \<Rightarrow>
                   (case draw_shimmer t of
                      Inl err \<Rightarrow> Inl err
                    | Inr u \<Rightarrow> Inr (s\<lparr>history := h'\<rparr>, ls))))))"

text \<open>Successive calls of \<open>draw\<close>; the sequence ends at a fault.\<close>

fun draw_ticks :: "tick list \<Rightarrow> sketch \<Rightarrow> js_error + sketch" where
  "draw_ticks [] s = Inr s"
| "draw_ticks (t # rest) s =
     (case draw t s of
        Inl err \<Rightarrow> Inl err
      | Inr (s', ls) \<Rightarrow> draw_ticks rest s')"

definition frame_of :: "sketch \<Rightarrow> point2D option list \<Rightarrow> segment list" where
  "frame_of s points2D = map (segment_of points2D) (filter (both_defined points2D) (edges s))"


section \<open>Tesseract of Time: the panel flip engine (main.js)\<close>

subsection \<open>Panels\<close>

definition clamp :: "real \<Rightarrow> real \<Rightarrow> real \<Rightarrow> real" where
  "clamp v a b = max a (min b v)"

datatype blending = NormalBlending | AdditiveBlending

record zone =
  zone_id :: string
  base :: nat
  alpha :: real
  zone_blending :: blending

text \<open>
  A texture stands for the canvas image that \<open>createTextTexture\<close> rasterises; it is
  determined by the four arguments of the call. \<open>createTextTexture\<close> hands its text to
  \<open>wrapText\<close>, whose first statement \<open>text.split(' ')\<close> faults on \<open>undefined\<close>.
\<close>

record texture =
  tex_text :: string
  tex_bg :: nat
  tex_fg :: string
  tex_opacity :: real

fun createTextTexture :: "string option \<Rightarrow> nat \<Rightarrow> string \<Rightarrow> real \<Rightarrow> js_error + texture" where
  "createTextTexture None bgColor fgColor opacity = Inl TypeError"
| "createTextTexture (Some text) bgColor fgColor opacity =
     Inr \<lparr>tex_text = text, tex_bg = bgColor, tex_fg = fgColor, tex_opacity = opacity\<rparr>"

text \<open>
  The panel object. \<open>swapped\<close> is the property \<open>_swapped\<close>, absent (falsy) until the
  first swap. The mesh, its position and its rotation belong to the rendering backend
  and are not part of the model; no property below reads them.
\<close>

record flip_state =
  active :: bool
  start :: real
  duration :: real
  axis :: string

record panel =
  zone :: zone
  texts :: "string option list"
  current :: nat
  flip :: flip_state
  swapped :: bool
  frontTexture :: texture

record panel_config =
  cfg_zone :: zone
  cfg_count :: nat
  cfg_radius :: real
  cfg_yOffset :: real
  cfg_texts :: "string list"

definition ZONE_PAST :: zone where
  "ZONE_PAST = \<lparr>zone_id = ''PAST'', base = 0x525252, alpha = 0.35, zone_blending = NormalBlending\<rparr>"

definition ZONE_PRESENT :: zone where
  "ZONE_PRESENT =
     \<lparr>zone_id = ''PRESENT'', base = 0xeaeff6, alpha = 0.95, zone_blending = NormalBlending\<rparr>"

definition ZONE_NEAR :: zone where
  "ZONE_NEAR = \<lparr>zone_id = ''NEAR'', base = 0x8de4d8, alpha = 0.8, zone_blending = NormalBlending\<rparr>"

definition ZONE_FAR :: zone where
  "ZONE_FAR = \<lparr>zone_id = ''FAR'', base = 0xb88cf6, alpha = 0.9, zone_blending = AdditiveBlending\<rparr>"

definition PANEL_CONFIGS :: "panel_config list" where
  "PANEL_CONFIGS =
     [\<lparr>cfg_zone = ZONE_PAST, cfg_count = 6, cfg_radius = 240, cfg_yOffset = - 120,
       cfg_texts = [''memory'', ''echo'', ''yesterday'']\<rparr>,
      \<lparr>cfg_zone = ZONE_PRESENT, cfg_count = 8, cfg_radius = 0, cfg_yOffset = 0,
       cfg_texts = [''now'', ''present'', ''breathe'']\<rparr>,
      \<lparr>cfg_zone = ZONE_NEAR, cfg_count = 6, cfg_radius = 220, cfg_yOffset = 110,
       cfg_texts = [''soon'', ''almost'', ''near'']\<rparr>,
      \<lparr>cfg_zone = ZONE_FAR, cfg_count = 4, cfg_radius = 380, cfg_yOffset = 60,
       cfg_texts = [''future'', ''echoes'', ''beyond'']\<rparr>]"

subsection \<open>buildPanels\<close>

text \<open>
  One iteration of the inner loop of \<open>buildPanels\<close>:
  \<open>const texts = [...cfg.texts]; if (texts.length < 2) texts.push(texts[0]);\<close>, then the
  front texture of \<open>texts[0]\<close>, then the panel object. For an empty configured list
  \<open>texts[0]\<close> is \<open>undefined\<close>, so \<open>texts\<close> becomes \<open>[undefined]\<close> and the texture call
  faults before a panel is made.
\<close>

definition make_panel :: "panel_config \<Rightarrow> js_error + panel" where
  "make_panel cfg =
     (let texts0 = map Some (cfg_texts cfg);
          texts1 = (if length texts0 < 2 then texts0 @ [js_index texts0 0] else texts0) in
      case createTextTexture (js_index texts1 0) (base (cfg_zone cfg)) ''#111111''
             (alpha (cfg_zone cfg)) of
        Inl err \<Rightarrow> Inl err
      | Inr frontTex \<Rightarrow>
          Inr \<lparr>zone = cfg_zone cfg, texts = texts1, current = 0,
               flip = \<lparr>active = False, start = 0, duration = 700, axis = ''y''\<rparr>,
               swapped = False, frontTexture = frontTex\<rparr>)"

text \<open>
  The loops push onto the global \<open>panels\<close>. A fault leaves the panels pushed so far in
  place, so the result is the list of panels together with the fault, if any. The first
  argument of \<open>build_config\<close> is the number of iterations still to run.
\<close>

fun build_config :: "nat \<Rightarrow> panel_config \<Rightarrow> panel list \<Rightarrow> panel list \<times> js_error option" where
  "build_config 0 cfg ps = (ps, None)"
| "build_config (Suc n) cfg ps =
     (case make_panel cfg of
        Inl err \<Rightarrow> (ps, Some err)
      | Inr p \<Rightarrow> build_config n cfg (ps @ [p]))"

fun build_configs :: "panel_config list \<Rightarrow> panel list \<Rightarrow> panel list \<times> js_error option" where
  "build_configs [] ps = (ps, None)"
| "build_configs (cfg # cfgs) ps =
     (case build_config (cfg_count cfg) cfg ps of
        (ps', Some err) \<Rightarrow> (ps', Some err)
      | (ps', None) \<Rightarrow> build_configs cfgs ps')"

definition buildPanels :: "panel_config list \<Rightarrow> panel list \<times> js_error option" where
  "buildPanels cfgs = build_configs cfgs []"

subsection \<open>triggerFlip and updateFlips\<close>

text \<open>
  \<open>now\<close> is the value \<open>performance.now()\<close> returns in the call. For a speed factor of
  zero the quotient \<open>1 / speedFactor\<close> is \<open>Infinity\<close> and the clamp gives 1100.
\<close>

definition triggerFlip :: "real \<Rightarrow> panel \<Rightarrow> real \<Rightarrow> string \<Rightarrow> panel" where
  "triggerFlip now p speedFactor ax =
     (if active (flip p) then p
      else p\<lparr>flip := (flip p)
             \<lparr>active := True, start := now,
              duration := (if speedFactor = 0 then 1100
                           else clamp (400 * (1 / speedFactor)) 360 1100),
              axis := ax\<rparr>\<rparr>)"

definition flip_progress :: "real \<Rightarrow> panel \<Rightarrow> real" where
  "flip_progress now p = clamp ((now - start (flip p)) / duration (flip p)) 0 1"

text \<open>
  The body of the \<open>forEach\<close> in \<open>updateFlips\<close>. When the text list is empty the new
  index is \<open>NaN\<close> and \<open>p.texts[NaN]\<close> is \<open>undefined\<close>; in the model the index is past the
  end of the list, which is \<open>undefined\<close> too, so the texture call faults in both.
\<close>

definition updateFlip :: "real \<Rightarrow> panel \<Rightarrow> js_error + panel" where
  "updateFlip now p =
     (if \<not> active (flip p) then Inr p
      else
        (let t = flip_progress now p in
         case (if \<not> swapped p \<and> t \<ge> 0.5
               then (let c = (current p + 1) mod length (texts p) in
                     case createTextTexture (js_index (texts p) c) (base (zone p)) ''#111111''
                            (alpha (zone p)) of
                       Inl err \<Rightarrow> Inl err
                     | Inr newTex \<Rightarrow>
                         Inr (p\<lparr>swapped := True, current := c, frontTexture := newTex\<rparr>))
               else Inr p) of
           Inl err \<Rightarrow> Inl err
         | Inr p1 \<Rightarrow>
             if t \<ge> 1 then Inr (p1\<lparr>flip := (flip p1)\<lparr>active := False\<rparr>, swapped := False\<rparr>)
             else Inr p1))"

fun updateFlips :: "real \<Rightarrow> panel list \<Rightarrow> js_error + panel list" where
  "updateFlips now [] = Inr []"
| "updateFlips now (p # ps) =
     (case updateFlip now p of
        Inl err \<Rightarrow> Inl err
      | Inr p' \<Rightarrow>
          (case updateFlips now ps of
             Inl err \<Rightarrow> Inl err
           | Inr ps' \<Rightarrow> Inr (p' # ps')))"

text \<open>
  Successive calls of \<open>updateFlips\<close> at the times of a list, and, for one panel, the
  number of those calls in which the swap branch \<open>if (!p._swapped && t >= 0.5)\<close> of an
  active flip is taken.
\<close>

fun updateFlips_run :: "real list \<Rightarrow> panel list \<Rightarrow> js_error + panel list" where
  "updateFlips_run [] ps = Inr ps"
| "updateFlips_run (now # nows) ps =
     (case updateFlips now ps of
        Inl err \<Rightarrow> Inl err
      | Inr ps' \<Rightarrow> updateFlips_run nows ps')"

definition swap_fires :: "real \<Rightarrow> panel \<Rightarrow> bool" where
  "swap_fires now p = (active (flip p) \<and> \<not> swapped p \<and> flip_progress now p \<ge> 0.5)"

fun swap_count :: "real list \<Rightarrow> panel \<Rightarrow> nat" where
  "swap_count [] p = 0"
| "swap_count (now # nows) p =
     (if swap_fires now p then 1 else 0)
     + (case updateFlip now p of Inl err \<Rightarrow> 0 | Inr p' \<Rightarrow> swap_count nows p')"

text \<open>
  A panel as \<open>buildPanels\<close> makes it and the flip functions keep it: at least one text,
  every text defined, the index inside the list, a positive duration, and the one-shot
  flag set only while a flip is active.
\<close>

definition panel_ok :: "panel \<Rightarrow> bool" where
  "panel_ok p =
     (texts p \<noteq> [] \<and> list_all (\<lambda>t. t \<noteq> None) (texts p) \<and> current p < length (texts p)
      \<and> 0 < duration (flip p) \<and> (swapped p \<longrightarrow> active (flip p)))"

subsection \<open>The animation loop and the event handlers\<close>

definition IDLE_THRESHOLD :: real where
  "IDLE_THRESHOLD = 5000"

definition AUTO_FLIP_INTERVAL :: real where
  "AUTO_FLIP_INTERVAL = 1400"

record engine =
  panels :: "panel list"
  lastInteraction :: real
  lastAutoFlip :: real
  engine_paused :: bool

text \<open>
  What one call of \<open>animate\<close> reads from outside: the values that \<open>Math.random()\<close>
  returns for the chance test, the panel choice, the speed factor and the axis, and the
  value of \<open>performance.now()\<close> read inside \<open>triggerFlip\<close>.
\<close>

record rolls =
  chance_roll :: real
  pick_roll :: real
  speed_roll :: real
  axis_roll :: real
  trigger_clock :: real

text \<open>
  \<open>panels[Math.floor(r * panels.length)]\<close>: the index of the chosen panel; outside the
  array the entry is \<open>undefined\<close> and \<open>triggerFlip\<close> faults on reading \<open>panel.flip\<close>.
\<close>

definition pick_panel :: "real \<Rightarrow> panel list \<Rightarrow> js_error + nat" where
  "pick_panel r ps =
     (let k = \<lfloor>r * real (length ps)\<rfloor> in
      if 0 \<le> k \<and> nat k < length ps then Inr (nat k) else Inl TypeError)"

definition auto_flip_due :: "real \<Rightarrow> engine \<Rightarrow> bool" where
  "auto_flip_due now s =
     (now - lastInteraction s > IDLE_THRESHOLD \<and> now - lastAutoFlip s > AUTO_FLIP_INTERVAL)"

text \<open>
  One call of \<open>animate(now)\<close>. The global rotation, the camera damping and the opacity
  pulse of the FAR zone write only to the rendering backend and are left out.
\<close>

definition animate :: "real \<Rightarrow> rolls \<Rightarrow> engine \<Rightarrow> js_error + engine" where
  "animate now r s =
     (if engine_paused s then Inr s
      else
        (case updateFlips now (panels s) of
           Inl err \<Rightarrow> Inl err
         | Inr ps \<Rightarrow>
             (let s1 = s\<lparr>panels := ps\<rparr> in
              if auto_flip_due now s1 then
                (if chance_roll r < 0.55 then
                   (case pick_panel (pick_roll r) ps of
                      Inl err \<Rightarrow> Inl err
                    | Inr i \<Rightarrow>
                        Inr (s1\<lparr>panels :=
                                  ps[i := triggerFlip (trigger_clock r) (ps ! i)
                                            (clamp (0.5 + speed_roll r * 2.5) 0.6 3.2)
                                            (if axis_roll r < 0.5 then ''x'' else ''y'')],
                                lastAutoFlip := now\<rparr>))
                 else Inr (s1\<lparr>lastAutoFlip := now\<rparr>))
              else Inr s1)))"

text \<open>
  The events of the page: an animation frame, a pointer move, a pointer press (with the
  index of the panel the ray hits, if any, and the axis draw), the pause button and the
  random-flip button (with the panel and axis draws). The time of a handler is its
  \<open>performance.now()\<close>.
\<close>

datatype event =
    Animate real rolls
  | PointerMove real
  | PointerDown real "nat option" real
  | PauseBtn
  | RandomBtn real real real

fun step :: "event \<Rightarrow> engine \<Rightarrow> js_error + engine" where
  "step (Animate now r) s = animate now r s"
| "step (PointerMove t) s = Inr (s\<lparr>lastInteraction := t\<rparr>)"
| "step (PointerDown t hit a) s =
     (case hit of
        None \<Rightarrow> Inr s
      | Some i \<Rightarrow>
          if i < length (panels s)
          then Inr (s\<lparr>panels := (panels s)[i := triggerFlip t (panels s ! i) 2.2
                                                 (if a < 0.5 then ''x'' else ''y'')],
                      lastInteraction := t\<rparr>)
          else Inr s)"
| "step PauseBtn s = Inr (s\<lparr>engine_paused := \<not> engine_paused s\<rparr>)"
| "step (RandomBtn t pick a) s =
     (case pick_panel pick (panels s) of
        Inl err \<Rightarrow> Inl err
      | Inr i \<Rightarrow>
          Inr (s\<lparr>panels := (panels s)[i := triggerFlip t (panels s ! i) 2.4
                                              (if a < 0.5 then ''x'' else ''y'')],
                  lastInteraction := t\<rparr>))"

text \<open>
  An idle attempt is a frame that reaches the body of
  \<open>if (idle > IDLE_THRESHOLD && (now - lastAutoFlip) > AUTO_FLIP_INTERVAL)\<close>.
  \<open>attempt_times\<close> lists the times of the attempts along a sequence of events; the
  sequence ends at a fault.
\<close>

fun attempts :: "event \<Rightarrow> engine \<Rightarrow> bool" where
  "attempts (Animate now r) s =
     (\<not> engine_paused s \<and>
      (case updateFlips now (panels s) of Inl err \<Rightarrow> False | Inr ps \<Rightarrow> auto_flip_due now s))"
| "attempts e s = False"

fun event_time :: "event \<Rightarrow> real" where
  "event_time (Animate now r) = now"
| "event_time (PointerMove t) = t"
| "event_time (PointerDown t hit a) = t"
| "event_time PauseBtn = 0"
| "event_time (RandomBtn t pick a) = t"

fun attempt_times :: "engine \<Rightarrow> event list \<Rightarrow> real list" where
  "attempt_times s [] = []"
| "attempt_times s (e # es) =
     (if attempts e s then [event_time e] else [])
     @ (case step e s of Inl err \<Rightarrow> [] | Inr s' \<Rightarrow> attempt_times s' es)"


subsection \<open>Auxiliary notions for the properties\<close>

text \<open>The successive calls of \<open>updateFlips\<close>, followed for a single panel.\<close>

fun updateFlip_run :: "real list \<Rightarrow> panel \<Rightarrow> js_error + panel" where
  "updateFlip_run [] p = Inr p"
| "updateFlip_run (now # nows) p =
     (case updateFlip now p of
        Inl err \<Rightarrow> Inl err
      | Inr p' \<Rightarrow> updateFlip_run nows p')"

text \<open>What is asked of the text list of a built panel: two entries or more, all defined.\<close>

definition built_ok :: "panel \<Rightarrow> bool" where
  "built_ok p = (2 \<le> length (texts p) \<and> list_all (\<lambda>t. t \<noteq> None) (texts p))"

text \<open>The panel that \<open>buildPanels\<close> makes first: panel 0 of the PAST zone.\<close>

definition first_panel :: panel where
  "first_panel =
     \<lparr>zone = ZONE_PAST, texts = [Some ''memory'', Some ''echo'', Some ''yesterday''],
      current = 0, flip = \<lparr>active = False, start = 0, duration = 700, axis = ''y''\<rparr>,
      swapped = False,
      frontTexture = \<lparr>tex_text = ''memory'', tex_bg = 0x525252, tex_fg = ''#111111'',
                       tex_opacity = 0.35\<rparr>\<rparr>"

section \<open>Properties of the hypercube sketch\<close>

subsection \<open>The tesseract\<close>

lemma init_verts_eq: "init_verts =
  [[-1,-1,-1,-1],[1,-1,-1,-1],[-1,1,-1,-1],[1,1,-1,-1],
   [-1,-1,1,-1],[1,-1,1,-1],[-1,1,1,-1],[1,1,1,-1],
   [-1,-1,-1,1],[1,-1,-1,1],[-1,1,-1,1],[1,1,-1,1],
   [-1,-1,1,1],[1,-1,1,1],[-1,1,1,1],[1,1,1,1]]"
  by code_simp

lemma init_edges_eq: "init_edges init_verts =
  [(0, 1), (0, 2), (0, 4), (0, 8), (1, 3), (1, 5), (1, 9), (2, 3), (2, 6),
   (2, 10), (3, 7), (3, 11), (4, 5), (4, 6), (4, 12), (5, 7), (5, 13),
   (6, 7), (6, 14), (7, 15), (8, 9), (8, 10), (8, 12), (9, 11), (9, 13),
   (10, 11), (10, 14), (11, 15), (12, 13), (12, 14), (13, 15), (14, 15)]"
  by code_simp

lemma init_verts_shape:
  "list_all (\<lambda>v. length v = 4 \<and> list_all (\<lambda>c. c = - 1 \<or> c = 1) v) init_verts"
  by code_simp

lemma init_verts_distinct: "distinct init_verts"
  by code_simp

lemma init_edges_distinct: "distinct (init_edges init_verts)"
  by code_simp

lemma init_edges_hamming:
  "list_all (\<lambda>e. fst e < snd e \<and> snd e < 16
               \<and> hamming (init_verts ! fst e) (init_verts ! snd e) = 1)
     (init_edges init_verts)"
  by code_simp

lemma init_edges_degree: "list_all (\<lambda>k. degree (init_edges init_verts) k = 4) [0..<16]"
  by code_simp

lemma init_edges_complete:
  "list_all (\<lambda>i. list_all (\<lambda>j. i < j \<and> hamming (init_verts ! i) (init_verts ! j) = 1
       \<longrightarrow> (i, j) \<in> set (init_edges init_verts)) [0..<16]) [0..<16]"
  by code_simp

text \<open>
  Claim C1. From any state, \<open>initTesseract\<close> leaves exactly 16 distinct vertices, each
  with four coordinates, every coordinate \<open>-1\<close> or \<open>+1\<close>, and exactly 32 distinct edges.
  Each edge is a pair of vertex indices \<open>i < j < 16\<close> whose vertices differ in exactly one
  coordinate, every such pair is an edge, and every vertex index lies on exactly four
  edges. The result does not depend on the state the call starts from.
\<close>

theorem initTesseract_hypercube:
  "length (verts4D (initTesseract s)) = 16
   \<and> distinct (verts4D (initTesseract s))
   \<and> (\<forall>v \<in> set (verts4D (initTesseract s)). length v = 4 \<and> (\<forall>c \<in> set v. c = - 1 \<or> c = 1))
   \<and> length (edges (initTesseract s)) = 32
   \<and> distinct (edges (initTesseract s))
   \<and> (\<forall>e \<in> set (edges (initTesseract s)). fst e < snd e \<and> snd e < 16
         \<and> hamming (verts4D (initTesseract s) ! fst e) (verts4D (initTesseract s) ! snd e) = 1)
   \<and> (\<forall>i < 16. \<forall>j < 16. i < j
         \<and> hamming (verts4D (initTesseract s) ! i) (verts4D (initTesseract s) ! j) = 1
         \<longrightarrow> (i, j) \<in> set (edges (initTesseract s)))
   \<and> (\<forall>k < 16. degree (edges (initTesseract s)) k = 4)
   \<and> verts4D (initTesseract s) = verts4D (initTesseract s')
   \<and> edges (initTesseract s) = edges (initTesseract s')"
proof -
  have v: "verts4D (initTesseract s) = init_verts"
    and e: "edges (initTesseract s) = init_edges init_verts"
    and v': "verts4D (initTesseract s') = init_verts"
    and e': "edges (initTesseract s') = init_edges init_verts"
    by (simp_all add: initTesseract_def)
  have 1: "length init_verts = 16" by (simp add: init_verts_eq)
  have 2: "length (init_edges init_verts) = 32" by (simp add: init_edges_eq)
  have 3: "\<forall>v \<in> set init_verts. length v = 4 \<and> (\<forall>c \<in> set v. c = - 1 \<or> c = 1)"
    using init_verts_shape by (simp only: list_all_iff)
  have 4: "\<forall>e \<in> set (init_edges init_verts). fst e < snd e \<and> snd e < 16
         \<and> hamming (init_verts ! fst e) (init_verts ! snd e) = 1"
    using init_edges_hamming by (simp only: list_all_iff)
  have 5: "\<forall>k < 16. degree (init_edges init_verts) k = 4"
    using init_edges_degree by (simp only: list_all_iff set_upt atLeastLessThan_iff) simp
  have 6: "\<forall>i < 16. \<forall>j < 16. i < j \<and> hamming (init_verts ! i) (init_verts ! j) = 1
         \<longrightarrow> (i, j) \<in> set (init_edges init_verts)"
    using init_edges_complete by (simp only: list_all_iff set_upt atLeastLessThan_iff) simp
  show ?thesis
    unfolding v e v' e'
    using 1 2 3 4 5 6 init_verts_distinct init_edges_distinct by blast
qed

theorem initTesseract_hypercube_witness:
  "length (verts4D (initTesseract \<lparr>verts4D = [], edges = [], history = [], paused = False\<rparr>)) = 16
   \<and> length (edges (initTesseract \<lparr>verts4D = [], edges = [], history = [], paused = False\<rparr>)) = 32
   \<and> degree (edges (initTesseract \<lparr>verts4D = [], edges = [], history = [], paused = False\<rparr>)) 5 = 4
   \<and> verts4D (initTesseract \<lparr>verts4D = [], edges = [], history = [], paused = False\<rparr>) ! 5
       = [1, - 1, 1, - 1]"
proof -
  let ?s = "\<lparr>verts4D = [], edges = [], history = [], paused = False\<rparr>"
  have "verts4D (initTesseract ?s) ! 5 = [1, - 1, 1, - 1]"
    by (simp add: initTesseract_def init_verts_eq)
  with initTesseract_hypercube [of ?s ?s] show ?thesis by simp
qed

subsection \<open>The rotation rate\<close>

lemma dist_p5_nonneg: "0 \<le> dist_p5 x1 y1 x2 y2"
  by (simp add: dist_p5_def)

text \<open>
  Claim C7, as stated, fails: the mapping is not clamped. A pointer jump of 120 pixels
  gives a rate of 0.0415, above 0.0215 and different from the clamped value.
\<close>

theorem draw_baseSpeed_unclamped_counterexample:
  "dist_p5 120 0 0 0 = 120 \<and> draw_baseSpeed 120 0 0 0 = 0.0415
   \<and> \<not> draw_baseSpeed 120 0 0 0 \<le> 0.0215
   \<and> draw_baseSpeed 120 0 0 0 \<noteq> 0.0015 + map_p5 (dist_p5 120 0 0 0) 0 60 0 0.02 True"
proof -
  have d: "dist_p5 120 0 0 0 = 120" by (simp add: dist_p5_def)
  show ?thesis by (simp add: d draw_baseSpeed_def map_p5_def constrain_p5_def Let_def)
qed

text \<open>
  Claim C7, amended. For every pointer displacement the rate is 0.0015 plus the image of
  the displacement under the linear mapping that sends \<open>[0, 60]\<close> onto \<open>[0, 0.02]\<close>, not
  clamped. For a displacement of at most 60 this is the value of the clamped mapping,
  and the rate is at most 0.0215 exactly when the displacement is at most 60.
\<close>

theorem draw_baseSpeed_linear_mapping:
  "draw_baseSpeed mx my pmouseX pmouseY = 0.0015 + dist_p5 mx my pmouseX pmouseY / 60 * 0.02
   \<and> (dist_p5 mx my pmouseX pmouseY \<le> 60 \<longrightarrow>
        draw_baseSpeed mx my pmouseX pmouseY
          = 0.0015 + map_p5 (dist_p5 mx my pmouseX pmouseY) 0 60 0 0.02 True)
   \<and> (draw_baseSpeed mx my pmouseX pmouseY \<le> 0.0215 \<longleftrightarrow> dist_p5 mx my pmouseX pmouseY \<le> 60)"
  using dist_p5_nonneg [of mx my pmouseX pmouseY]
  by (auto simp add: draw_baseSpeed_def map_p5_def constrain_p5_def min_def max_def Let_def)

theorem draw_baseSpeed_linear_mapping_witness:
  "dist_p5 3 4 0 0 = 5 \<and> dist_p5 3 4 0 0 \<le> 60
   \<and> draw_baseSpeed 3 4 0 0 = 0.0015 + map_p5 (dist_p5 3 4 0 0) 0 60 0 0.02 True
   \<and> draw_baseSpeed 3 4 0 0 \<le> 0.0215"
proof -
  have "dist_p5 3 4 0 0 = sqrt (5\<^sup>2)" by (simp add: dist_p5_def)
  then have d: "dist_p5 3 4 0 0 = 5" by (simp only: real_sqrt_abs abs_numeral)
  with draw_baseSpeed_linear_mapping [of 3 4 0 0] show ?thesis by simp
qed

subsection \<open>Plane rotations\<close>

lemma planar_rotation_sq:
  fixes a b :: real
  shows "(a * cos t - b * sin t)\<^sup>2 + (a * sin t + b * cos t)\<^sup>2 = a\<^sup>2 + b\<^sup>2"
proof -
  have "(a * cos t - b * sin t)\<^sup>2 + (a * sin t + b * cos t)\<^sup>2
        = (a\<^sup>2 + b\<^sup>2) * ((sin t)\<^sup>2 + (cos t)\<^sup>2)"
    by algebra
  then show ?thesis by simp
qed

lemma length4_cases:
  assumes "length v = 4"
  obtains x y z w where "v = [x, y, z, w]"
proof -
  from assms obtain x v1 where 1: "v = x # v1" "length v1 = 3" by (cases v) auto
  then obtain y v2 where 2: "v1 = y # v2" "length v2 = 2" by (cases v1) auto
  then obtain z v3 where 3: "v2 = z # v3" "length v3 = 1" by (cases v2) auto
  then obtain w where 4: "v3 = [w]" by (cases v3) auto
  from 1 2 3 4 have "v = [x, y, z, w]" by simp
  then show ?thesis by (rule that)
qed

text \<open>
  Claim C8. For every vector of four reals, every plane among \<open>xy, xz, xw, yz, yw, zw\<close>
  and every angle, \<open>rotate4D\<close> returns a vector of four reals with the same Euclidean
  norm.
\<close>

theorem rotate4D_preserves_norm:
  assumes "length v = 4" and "plane \<in> set planes"
  shows "norm4 (rotate4D v plane t) = norm4 v \<and> length (rotate4D v plane t) = 4"
proof -
  from assms(1) obtain x y z w where v: "v = [x, y, z, w]" by (rule length4_cases)
  have xy: "(x * cos t - y * sin t)\<^sup>2 + (x * sin t + y * cos t)\<^sup>2 = x\<^sup>2 + y\<^sup>2"
   and xz: "(x * cos t - z * sin t)\<^sup>2 + (x * sin t + z * cos t)\<^sup>2 = x\<^sup>2 + z\<^sup>2"
   and xw: "(x * cos t - w * sin t)\<^sup>2 + (x * sin t + w * cos t)\<^sup>2 = x\<^sup>2 + w\<^sup>2"
   and yz: "(y * cos t - z * sin t)\<^sup>2 + (y * sin t + z * cos t)\<^sup>2 = y\<^sup>2 + z\<^sup>2"
   and yw: "(y * cos t - w * sin t)\<^sup>2 + (y * sin t + w * cos t)\<^sup>2 = y\<^sup>2 + w\<^sup>2"
   and zw: "(z * cos t - w * sin t)\<^sup>2 + (z * sin t + w * cos t)\<^sup>2 = z\<^sup>2 + w\<^sup>2"
    by (rule planar_rotation_sq)+
  from assms(2) consider "plane = ''xy''" | "plane = ''xz''" | "plane = ''xw''"
    | "plane = ''yz''" | "plane = ''yw''" | "plane = ''zw''"
    by (auto simp: planes_def)
  then show ?thesis
  proof cases
    case 1
    with xy show ?thesis by (simp add: v rotate4D_def norm4_def Let_def)
  next
    case 2
    have "(x * cos t - z * sin t)\<^sup>2 + (y\<^sup>2 + ((x * sin t + z * cos t)\<^sup>2 + w\<^sup>2))
            = x\<^sup>2 + (y\<^sup>2 + (z\<^sup>2 + w\<^sup>2))"
      using xz by linarith
    with 2 show ?thesis by (simp add: v rotate4D_def norm4_def Let_def)
  next
    case 3
    have "(x * cos t - w * sin t)\<^sup>2 + (y\<^sup>2 + (z\<^sup>2 + (x * sin t + w * cos t)\<^sup>2))
            = x\<^sup>2 + (y\<^sup>2 + (z\<^sup>2 + w\<^sup>2))"
      using xw by linarith
    with 3 show ?thesis by (simp add: v rotate4D_def norm4_def Let_def)
  next
    case 4
    have "x\<^sup>2 + ((y * cos t - z * sin t)\<^sup>2 + ((y * sin t + z * cos t)\<^sup>2 + w\<^sup>2))
            = x\<^sup>2 + (y\<^sup>2 + (z\<^sup>2 + w\<^sup>2))"
      using yz by linarith
    with 4 show ?thesis by (simp add: v rotate4D_def norm4_def Let_def)
  next
    case 5
    have "x\<^sup>2 + ((y * cos t - w * sin t)\<^sup>2 + (z\<^sup>2 + (y * sin t + w * cos t)\<^sup>2))
            = x\<^sup>2 + (y\<^sup>2 + (z\<^sup>2 + w\<^sup>2))"
      using yw by linarith
    with 5 show ?thesis by (simp add: v rotate4D_def norm4_def Let_def)
  next
    case 6
    have "x\<^sup>2 + (y\<^sup>2 + ((z * cos t - w * sin t)\<^sup>2 + (z * sin t + w * cos t)\<^sup>2))
            = x\<^sup>2 + (y\<^sup>2 + (z\<^sup>2 + w\<^sup>2))"
      using zw by linarith
    with 6 show ?thesis by (simp add: v rotate4D_def norm4_def Let_def)
  qed
qed

theorem rotate4D_preserves_norm_witness:
  "length [1, 0, 0, 0 :: real] = 4 \<and> ''xy'' \<in> set planes
   \<and> rotate4D [1, 0, 0, 0] ''xy'' (pi / 2) = [0, 1, 0, 0]
   \<and> norm4 (rotate4D [1, 0, 0, 0] ''xy'' (pi / 2)) = norm4 [1, 0, 0, 0]"
proof -
  have h1: "length [1, 0, 0, 0 :: real] = 4" by simp
  have h2: "''xy'' \<in> set planes" by (simp add: planes_def)
  have "rotate4D [1, 0, 0, 0] ''xy'' (pi / 2) = [0, 1, 0, 0]"
    by (simp add: rotate4D_def Let_def)
  with h1 h2 rotate4D_preserves_norm [OF h1 h2, of "pi / 2"] show ?thesis by simp
qed

subsection \<open>Edges with an undefined endpoint\<close>

lemma read_xy_defined:
  "a \<noteq> None \<Longrightarrow> read_xy a = Inr (pt_x (the a), pt_y (the a))"
  by (cases a) auto

lemma serializeFrame_loop_eq:
  "serializeFrame_loop es points2D segs =
     Inr (segs @ map (segment_of points2D) (filter (both_defined points2D) es))"
proof (induction es arbitrary: segs)
  case Nil
  show ?case by simp
next
  case (Cons e es)
  show ?case
  proof (cases "both_defined points2D e")
    case True
    then show ?thesis
      by (simp add: Cons.IH both_defined_def segment_of_def read_xy_defined Let_def)
  next
    case False
    then show ?thesis
      by (simp add: Cons.IH both_defined_def Let_def)
  qed
qed

lemma draw_edges_loop_eq:
  "draw_edges_loop es points2D out =
     Inr (out @ map (line_of points2D) (filter (both_defined points2D) es))"
proof (induction es arbitrary: out)
  case Nil
  show ?case by simp
next
  case (Cons e es)
  show ?case
  proof (cases "both_defined points2D e")
    case True
    then show ?thesis
      by (simp add: Cons.IH both_defined_def line_of_def read_xy_defined Let_def)
  next
    case False
    then show ?thesis
      by (simp add: Cons.IH both_defined_def Let_def)
  qed
qed

lemma serializeFrame_eq:
  "serializeFrame es points2D = Inr (map (segment_of points2D) (filter (both_defined points2D) es))"
  by (simp add: serializeFrame_def serializeFrame_loop_eq)

lemma draw_edges_eq:
  "draw_edges es points2D = Inr (map (line_of points2D) (filter (both_defined points2D) es))"
  by (simp add: draw_edges_def draw_edges_loop_eq)

lemma serializeFrame_frame_of: "serializeFrame (edges s) points2D = Inr (frame_of s points2D)"
  by (simp add: serializeFrame_eq frame_of_def)

lemma shimmer_vertices_defined:
  "list_all (\<lambda>p. p \<noteq> None) points2D \<Longrightarrow> \<exists>shape. shimmer_vertices points2D = Inr shape"
proof (induction points2D)
  case Nil
  show ?case by simp
next
  case (Cons v vs)
  then obtain p rest where "v = Some p" "shimmer_vertices vs = Inr rest" by auto
  then show ?case by simp
qed

lemma shimmer_layers_defined:
  assumes "list_all (\<lambda>p. p \<noteq> None) points2D"
  shows "shimmer_layers n points2D = Inr ()"
proof (induction n)
  case 0
  show ?case by simp
next
  case (Suc n)
  from shimmer_vertices_defined [OF assms] obtain shape
    where "shimmer_vertices points2D = Inr shape" ..
  with Suc show ?case by simp
qed

lemma draw_shimmer_defined:
  "list_all (\<lambda>p. p \<noteq> None) (tick_points2D t) \<Longrightarrow> draw_shimmer t = Inr ()"
  by (simp add: draw_shimmer_def shimmer_layers_defined)

lemma draw_unpaused:
  assumes "\<not> paused s"
  shows "draw t s =
           (case draw_shimmer t of
              Inl err \<Rightarrow> Inl err
            | Inr u \<Rightarrow>
                Inr (s\<lparr>history := (let h = history s @ [frame_of s (tick_points2D t)] in
                                     if length h > HISTORY_MAX then tl h else h)\<rparr>,
                     map (line_of (tick_points2D t))
                       (filter (both_defined (tick_points2D t)) (edges s))))"
  using assms
  by (cases "draw_shimmer t")
     (simp_all add: draw_def serializeFrame_eq draw_edges_eq frame_of_def Let_def)

lemma draw_paused: "paused s \<Longrightarrow> draw t s = Inr (s, [])"
  by (simp add: draw_def)

lemma draw_result:
  assumes "\<not> paused s" and "draw t s = Inr (s', ls)"
  shows "s' = s\<lparr>history := (let h = history s @ [frame_of s (tick_points2D t)] in
                             if length h > HISTORY_MAX then tl h else h)\<rparr>"
    and "ls = map (line_of (tick_points2D t)) (filter (both_defined (tick_points2D t)) (edges s))"
  using assms(2) by (auto simp add: draw_unpaused [OF assms(1)] split: sum.splits)

lemma draw_defined_returns:
  assumes "list_all (\<lambda>p. p \<noteq> None) (tick_points2D t)"
  shows "\<exists>s' ls. draw t s = Inr (s', ls)"
proof (cases "paused s")
  case True
  then show ?thesis by (simp add: draw_paused)
next
  case False
  then show ?thesis by (simp add: draw_unpaused draw_shimmer_defined [OF assms])
qed





subsection \<open>The trail history\<close>

lemma shift_as_drop:
  assumes "length h \<le> HISTORY_MAX"
  shows "(let h1 = h @ [f] in if length h1 > HISTORY_MAX then tl h1 else h1)
           = drop (length h + 1 - HISTORY_MAX) (h @ [f])"
proof (cases "length h = 42")
  case True
  then have "h \<noteq> []" by auto
  with True show ?thesis by (simp add: Let_def HISTORY_MAX_def drop_Suc)
next
  case False
  with assms have "length h < 42" by (simp add: HISTORY_MAX_def)
  then show ?thesis by (simp add: Let_def HISTORY_MAX_def)
qed

lemma draw_history_bound:
  assumes "length (history s) \<le> HISTORY_MAX" and "draw t s = Inr (s', ls)"
  shows "length (history s') \<le> HISTORY_MAX"
proof (cases "paused s")
  case True
  with assms show ?thesis by (simp add: draw_paused)
next
  case False
  from draw_result(1) [OF False assms(2)] assms(1) show ?thesis by (simp add: Let_def)
qed

lemma frame_of_history_update [simp]: "frame_of (s\<lparr>history := h\<rparr>) = frame_of s"
  by (simp add: frame_of_def fun_eq_iff)

lemma draw_ticks_history:
  assumes "\<not> paused s" and "length (history s) \<le> HISTORY_MAX"
    and "draw_ticks ticks s = Inr s'"
  shows "s' = s\<lparr>history := drop (length (history s) + length ticks - HISTORY_MAX)
                             (history s @ map (\<lambda>t. frame_of s (tick_points2D t)) ticks)\<rparr>"
  using assms
proof (induction ticks arbitrary: s)
  case Nil
  then show ?case by simp
next
  case (Cons t ticks)
  let ?f = "\<lambda>t. frame_of s (tick_points2D t)"
  let ?h = "drop (length (history s) + 1 - HISTORY_MAX) (history s @ [?f t])"
  let ?s = "s\<lparr>history := ?h\<rparr>"
  from Cons.prems(3) obtain s1 ls where d: "draw t s = Inr (s1, ls)"
    and r: "draw_ticks ticks s1 = Inr s'"
    by (auto split: sum.splits)
  from draw_result(1) [OF Cons.prems(1) d] have s1: "s1 = ?s"
    using shift_as_drop [OF Cons.prems(2), of "?f t"] by simp
  have np: "\<not> paused ?s" using Cons.prems by simp
  have len: "length (history ?s) \<le> HISTORY_MAX" using Cons.prems by simp
  from r s1 have "draw_ticks ticks ?s = Inr s'" by simp
  from Cons.IH [OF np len this]
  have "s' = ?s\<lparr>history := drop (length (history ?s) + length ticks - HISTORY_MAX)
                                  (history ?s @ map ?f ticks)\<rparr>"
    by simp
  also have "drop (length (history ?s) + length ticks - HISTORY_MAX) (history ?s @ map ?f ticks)
      = drop (length (history s) + length (t # ticks) - HISTORY_MAX)
             (history s @ map ?f (t # ticks))"
  proof (cases "length (history s) = HISTORY_MAX")
    case True
    then have "?h = tl (history s) @ [?f t]"
      by (cases "history s") (auto simp: HISTORY_MAX_def)
    with True show ?thesis
      by (cases "history s") (auto simp: HISTORY_MAX_def)
  next
    case False
    with Cons.prems have "length (history s) + 1 - HISTORY_MAX = 0" by simp
    then show ?thesis by simp
  qed
  finally show ?case by simp
qed

lemma draw_ticks_defined_returns:
  assumes "\<forall>t \<in> set ticks. list_all (\<lambda>p. p \<noteq> None) (tick_points2D t)"
  shows "\<exists>s'. draw_ticks ticks s = Inr s'"
  using assms
proof (induction ticks arbitrary: s)
  case Nil
  show ?case by simp
next
  case (Cons t ticks)
  then have "list_all (\<lambda>p. p \<noteq> None) (tick_points2D t)" by simp
  from draw_defined_returns [OF this, of s] obtain s1 ls where "draw t s = Inr (s1, ls)"
    by blast
  with Cons.IH [of s1] Cons.prems show ?case by simp
qed

text \<open>
  Claim C5. A call of \<open>draw\<close> keeps a history of at most 42 frames within that
  bound. A call that is not paused appends the frame that \<open>serializeFrame\<close> captures in
  the call and drops the oldest frame only when the history held 42 frames already.
  From an empty history, after \<open>n\<close> calls the history holds the frames of the last
  \<open>min n 42\<close> calls, oldest first; after 50 calls its length is 42 and its oldest frame
  is the frame captured in the ninth call.
\<close>

theorem history_bounded_fifo:
  "(length (history s) \<le> HISTORY_MAX \<and> draw t s = Inr (s', ls)
      \<longrightarrow> length (history s') \<le> 42)
   \<and> (\<not> paused s \<and> draw t s = Inr (s', ls)
      \<longrightarrow> (\<exists>frame. serializeFrame (edges s) (tick_points2D t) = Inr frame
             \<and> history s' = (if length (history s) < 42 then history s @ [frame]
                              else tl (history s) @ [frame])))
   \<and> (\<not> paused s \<and> history s = [] \<and> draw_ticks ticks s = Inr s''
      \<longrightarrow> length (history s'') = min (length ticks) 42
          \<and> (\<forall>k < length (history s'').
                serializeFrame (edges s) (tick_points2D (ticks ! (length ticks - 42 + k)))
                  = Inr (history s'' ! k)))
   \<and> (\<not> paused s \<and> history s = [] \<and> length ticks = 50 \<and> draw_ticks ticks s = Inr s''
      \<longrightarrow> length (history s'') = 42
          \<and> serializeFrame (edges s) (tick_points2D (ticks ! 8)) = Inr (hd (history s'')))"
proof (intro conjI impI)
  assume "length (history s) \<le> HISTORY_MAX \<and> draw t s = Inr (s', ls)"
  then show "length (history s') \<le> 42"
    using draw_history_bound [of s t s' ls] by (simp add: HISTORY_MAX_def)
next
  assume a: "\<not> paused s \<and> draw t s = Inr (s', ls)"
  let ?f = "frame_of s (tick_points2D t)"
  from a have h: "history s' = (let h = history s @ [?f] in
                                if length h > HISTORY_MAX then tl h else h)"
    using draw_result(1) [of s t s' ls] by simp
  have "history s' = (if length (history s) < 42 then history s @ [?f]
                      else tl (history s) @ [?f])"
  proof (cases "length (history s) < 42")
    case True
    with h show ?thesis by (simp add: Let_def HISTORY_MAX_def)
  next
    case False
    then have "history s \<noteq> []" by auto
    with False h show ?thesis by (simp add: Let_def HISTORY_MAX_def)
  qed
  then show "\<exists>frame. serializeFrame (edges s) (tick_points2D t) = Inr frame
             \<and> history s' = (if length (history s) < 42 then history s @ [frame]
                              else tl (history s) @ [frame])"
    using serializeFrame_frame_of by blast
next
  assume a: "\<not> paused s \<and> history s = [] \<and> draw_ticks ticks s = Inr s''"
  then have h: "history s'' = map (\<lambda>t. frame_of s (tick_points2D t))
                                 (drop (length ticks - 42) ticks)"
    using draw_ticks_history [of s ticks s''] by (simp add: HISTORY_MAX_def drop_map)
  then show "length (history s'') = min (length ticks) 42" by auto
  show "\<forall>k < length (history s'').
                serializeFrame (edges s) (tick_points2D (ticks ! (length ticks - 42 + k)))
                  = Inr (history s'' ! k)"
    using h by (simp add: serializeFrame_frame_of)
next
  assume a: "\<not> paused s \<and> history s = [] \<and> length ticks = 50 \<and> draw_ticks ticks s = Inr s''"
  let ?f = "\<lambda>t. frame_of s (tick_points2D t)"
  from a have h: "history s'' = map ?f (drop 8 ticks)"
    using draw_ticks_history [of s ticks s''] by (simp add: HISTORY_MAX_def drop_map)
  with a show "length (history s'') = 42" by simp
  from a have "drop 8 ticks \<noteq> []" by auto
  then have "hd (map ?f (drop 8 ticks)) = ?f (hd (drop 8 ticks))"
    by (rule hd_map)
  also from a have "hd (drop 8 ticks) = ticks ! 8" by (simp add: hd_drop_conv_nth)
  finally show "serializeFrame (edges s) (tick_points2D (ticks ! 8)) = Inr (hd (history s''))"
    using h by (simp add: serializeFrame_frame_of)
qed

theorem history_bounded_fifo_witness:
  "\<not> paused \<lparr>verts4D = [], edges = [(0, 1)], history = [], paused = False\<rparr>
   \<and> length (map (\<lambda>k. \<lparr>tick_points2D =
                           [Some \<lparr>pt_x = real k, pt_y = 0, pt_depth = 0, pt_w = 1\<rparr>,
                            Some \<lparr>pt_x = 0, pt_y = real k, pt_depth = 0, pt_w = 1\<rparr>],
                        tick_velocity = 0, tick_lingerTime = 1\<rparr>) [1..<51]) = 50
   \<and> (\<exists>s'. draw_ticks
              (map (\<lambda>k. \<lparr>tick_points2D =
                           [Some \<lparr>pt_x = real k, pt_y = 0, pt_depth = 0, pt_w = 1\<rparr>,
                            Some \<lparr>pt_x = 0, pt_y = real k, pt_depth = 0, pt_w = 1\<rparr>],
                        tick_velocity = 0, tick_lingerTime = 1\<rparr>) [1..<51])
              \<lparr>verts4D = [], edges = [(0, 1)], history = [], paused = False\<rparr> = Inr s'
          \<and> length (history s') = 42
          \<and> hd (history s') = [((9, 0), (0, 9))])"
proof -
  let ?s = "\<lparr>verts4D = [], edges = [(0, 1)], history = [], paused = False\<rparr>"
  let ?ticks = "map (\<lambda>k. \<lparr>tick_points2D =
                           [Some \<lparr>pt_x = real k, pt_y = 0, pt_depth = 0, pt_w = 1\<rparr>,
                            Some \<lparr>pt_x = 0, pt_y = real k, pt_depth = 0, pt_w = 1\<rparr>],
                        tick_velocity = 0, tick_lingerTime = 1\<rparr>) [1..<51]"
  have f: "serializeFrame (edges ?s) (tick_points2D (?ticks ! 8)) = Inr [((9, 0), (0, 9))]"
    by (simp add: serializeFrame_def js_index_def)
  have h: "\<not> paused ?s" "history ?s = []" "length ?ticks = 50" by simp_all
  have "\<forall>t \<in> set ?ticks. list_all (\<lambda>p. p \<noteq> None) (tick_points2D t)" by auto
  from draw_ticks_defined_returns [OF this, of ?s]
  obtain s' where r: "draw_ticks ?ticks ?s = Inr s'" ..
  from history_bounded_fifo [of ?s _ _ _ ?ticks s'] h r
  have "length (history s') = 42"
    "serializeFrame (edges ?s) (tick_points2D (?ticks ! 8)) = Inr (hd (history s'))"
    by blast+
  with f r h show ?thesis by auto
qed

section \<open>Properties of the panel flip engine\<close>

subsection \<open>Building the panels\<close>

lemma make_panel_empty: "cfg_texts cfg = [] \<Longrightarrow> make_panel cfg = Inl TypeError"
  by (simp add: make_panel_def js_index_def)

lemma make_panel_single:
  "cfg_texts cfg = [t] \<Longrightarrow>
     make_panel cfg =
       Inr \<lparr>zone = cfg_zone cfg, texts = [Some t, Some t], current = 0,
            flip = \<lparr>active = False, start = 0, duration = 700, axis = ''y''\<rparr>,
            swapped = False,
            frontTexture = \<lparr>tex_text = t, tex_bg = base (cfg_zone cfg), tex_fg = ''#111111'',
                             tex_opacity = alpha (cfg_zone cfg)\<rparr>\<rparr>"
  by (simp add: make_panel_def js_index_def)

lemma make_panel_many:
  "cfg_texts cfg = t # u # ts \<Longrightarrow>
     make_panel cfg =
       Inr \<lparr>zone = cfg_zone cfg, texts = map Some (t # u # ts), current = 0,
            flip = \<lparr>active = False, start = 0, duration = 700, axis = ''y''\<rparr>,
            swapped = False,
            frontTexture = \<lparr>tex_text = t, tex_bg = base (cfg_zone cfg), tex_fg = ''#111111'',
                             tex_opacity = alpha (cfg_zone cfg)\<rparr>\<rparr>"
  by (simp add: make_panel_def js_index_def)

lemma make_panel_built_ok:
  assumes "make_panel cfg = Inr p"
  shows "built_ok p \<and> panel_ok p"
proof (cases "cfg_texts cfg")
  case Nil
  with assms show ?thesis by (simp add: make_panel_empty)
next
  case (Cons t ts)
  show ?thesis
  proof (cases ts)
    case Nil
    with Cons assms show ?thesis
      by (auto simp add: make_panel_single built_ok_def panel_ok_def)
  next
    case (Cons u us)
    with \<open>cfg_texts cfg = t # ts\<close> assms show ?thesis
      by (auto simp add: make_panel_many built_ok_def panel_ok_def list_all_iff)
  qed
qed

lemma build_config_keeps:
  assumes "\<forall>p \<in> set ps. built_ok p \<and> panel_ok p"
  shows "\<forall>p \<in> set (fst (build_config n cfg ps)). built_ok p \<and> panel_ok p"
  using assms
proof (induction n arbitrary: ps)
  case 0
  then show ?case by simp
next
  case (Suc n)
  show ?case
  proof (cases "make_panel cfg")
    case (Inl err)
    with Suc.prems show ?thesis by simp
  next
    case (Inr p)
    then have "built_ok p \<and> panel_ok p" by (rule make_panel_built_ok)
    with Suc.prems have "\<forall>q \<in> set (ps @ [p]). built_ok q \<and> panel_ok q" by auto
    then have "\<forall>q \<in> set (fst (build_config n cfg (ps @ [p]))). built_ok q \<and> panel_ok q"
      by (rule Suc.IH)
    with Inr show ?thesis by simp
  qed
qed

lemma build_configs_keeps:
  assumes "\<forall>p \<in> set ps. built_ok p \<and> panel_ok p"
  shows "\<forall>p \<in> set (fst (build_configs cfgs ps)). built_ok p \<and> panel_ok p"
  using assms
proof (induction cfgs arbitrary: ps)
  case Nil
  then show ?case by simp
next
  case (Cons cfg cfgs)
  obtain ps' r where b: "build_config (cfg_count cfg) cfg ps = (ps', r)"
    by (cases "build_config (cfg_count cfg) cfg ps")
  from build_config_keeps [OF Cons.prems, of "cfg_count cfg" cfg] b
  have keep: "\<forall>p \<in> set ps'. built_ok p \<and> panel_ok p" by simp
  show ?case
  proof (cases r)
    case None
    with b Cons.IH [OF keep] show ?thesis by simp
  next
    case (Some err)
    with b keep show ?thesis by simp
  qed
qed

lemma buildPanels_built_ok: "\<forall>p \<in> set (fst (buildPanels cfgs)). built_ok p \<and> panel_ok p"
  unfolding buildPanels_def by (rule build_configs_keeps) simp

lemma build_config_replicate:
  "make_panel cfg = Inr p \<Longrightarrow> build_config n cfg ps = (ps @ replicate n p, None)"
proof (induction n arbitrary: ps)
  case 0
  show ?case by simp
next
  case (Suc n)
  then show ?case by (simp add: replicate_app_Cons_same)
qed

lemma successor_defined:
  assumes "built_ok p" and "c < length (texts p)"
  shows "(c + 1) mod length (texts p) \<noteq> c
         \<and> js_index (texts p) ((c + 1) mod length (texts p)) \<noteq> None"
proof -
  let ?n = "length (texts p)"
  from assms have n: "2 \<le> ?n" by (simp add: built_ok_def)
  then have "0 < ?n" by linarith
  then have lt: "(c + 1) mod ?n < ?n" by (rule mod_less_divisor)
  have ne: "(c + 1) mod ?n \<noteq> c"
  proof (cases "c + 1 < ?n")
    case True
    then show ?thesis by simp
  next
    case False
    with assms(2) have "c + 1 = ?n" by simp
    with n show ?thesis by auto
  qed
  from assms(1) lt have "texts p ! ((c + 1) mod ?n) \<noteq> None"
    by (simp add: built_ok_def list_all_length)
  with lt ne show ?thesis by (simp add: js_index_def)
qed

lemma buildPanels_PANEL_CONFIGS:
  "snd (buildPanels PANEL_CONFIGS) = None \<and> length (fst (buildPanels PANEL_CONFIGS)) = 24"
proof -
  have 1: "\<exists>p. make_panel (PANEL_CONFIGS ! 0) = Inr p" 
   and 2: "\<exists>p. make_panel (PANEL_CONFIGS ! 1) = Inr p"
   and 3: "\<exists>p. make_panel (PANEL_CONFIGS ! 2) = Inr p"
   and 4: "\<exists>p. make_panel (PANEL_CONFIGS ! 3) = Inr p"
    by (simp_all add: PANEL_CONFIGS_def make_panel_def js_index_def)
  then obtain p1 p2 p3 p4 where
    "make_panel (PANEL_CONFIGS ! 0) = Inr p1" "make_panel (PANEL_CONFIGS ! 1) = Inr p2"
    "make_panel (PANEL_CONFIGS ! 2) = Inr p3" "make_panel (PANEL_CONFIGS ! 3) = Inr p4"
    by blast
  then have
    "build_config 6 (PANEL_CONFIGS ! 0) [] = ([] @ replicate 6 p1, None)"
    "build_config 8 (PANEL_CONFIGS ! 1) (replicate 6 p1) = (replicate 6 p1 @ replicate 8 p2, None)"
    "build_config 6 (PANEL_CONFIGS ! 2) (replicate 6 p1 @ replicate 8 p2)
       = ((replicate 6 p1 @ replicate 8 p2) @ replicate 6 p3, None)"
    "build_config 4 (PANEL_CONFIGS ! 3) ((replicate 6 p1 @ replicate 8 p2) @ replicate 6 p3)
       = (((replicate 6 p1 @ replicate 8 p2) @ replicate 6 p3) @ replicate 4 p4, None)"
    by (simp_all only: build_config_replicate)
  then have "buildPanels PANEL_CONFIGS
      = (((replicate 6 p1 @ replicate 8 p2) @ replicate 6 p3) @ replicate 4 p4, None)"
    by (simp add: buildPanels_def PANEL_CONFIGS_def)
  then show ?thesis by simp
qed

lemma first_panel_made: "make_panel (hd PANEL_CONFIGS) = Inr first_panel"
  by (simp add: PANEL_CONFIGS_def make_panel_def js_index_def first_panel_def ZONE_PAST_def)

lemma first_panel_ok: "panel_ok first_panel"
  using make_panel_built_ok [OF first_panel_made] by simp

text \<open>
  Claim C10. Whatever the zone configurations are, every panel that \<open>buildPanels\<close>
  creates has at least two texts, all of them defined, so that from every index the
  next index modulo the length is a different index with a defined text. A configuration
  with exactly one text yields panels whose list holds that text twice. (A configuration
  with no text faults in the texture call before its first panel is made.)
\<close>

theorem buildPanels_two_texts:
  "(\<forall>p \<in> set (fst (buildPanels cfgs)).
      2 \<le> length (texts p) \<and> list_all (\<lambda>t. t \<noteq> None) (texts p)
      \<and> (\<forall>c < length (texts p).
            (c + 1) mod length (texts p) \<noteq> c
            \<and> js_index (texts p) ((c + 1) mod length (texts p)) \<noteq> None))
   \<and> (cfg_texts cfg = [t] \<longrightarrow>
        (\<exists>p. make_panel cfg = Inr p \<and> texts p = [Some t, Some t]
             \<and> buildPanels [cfg] = (replicate (cfg_count cfg) p, None)))"
proof (intro conjI ballI impI)
  fix p assume "p \<in> set (fst (buildPanels cfgs))"
  with buildPanels_built_ok have ok: "built_ok p" by blast
  then show "2 \<le> length (texts p)" and "list_all (\<lambda>t. t \<noteq> None) (texts p)"
    by (simp_all add: built_ok_def)
  from ok show "\<forall>c < length (texts p).
            (c + 1) mod length (texts p) \<noteq> c
            \<and> js_index (texts p) ((c + 1) mod length (texts p)) \<noteq> None"
    using successor_defined by blast
next
  assume t: "cfg_texts cfg = [t]"
  let ?p = "\<lparr>zone = cfg_zone cfg, texts = [Some t, Some t], current = 0,
            flip = \<lparr>active = False, start = 0, duration = 700, axis = ''y''\<rparr>,
            swapped = False,
            frontTexture = \<lparr>tex_text = t, tex_bg = base (cfg_zone cfg), tex_fg = ''#111111'',
                             tex_opacity = alpha (cfg_zone cfg)\<rparr>\<rparr>"
  from t have m: "make_panel cfg = Inr ?p" by (rule make_panel_single)
  then have "build_config (cfg_count cfg) cfg [] = ([] @ replicate (cfg_count cfg) ?p, None)"
    by (rule build_config_replicate)
  then have "buildPanels [cfg] = (replicate (cfg_count cfg) ?p, None)"
    by (simp add: buildPanels_def)
  with m show "\<exists>p. make_panel cfg = Inr p \<and> texts p = [Some t, Some t]
             \<and> buildPanels [cfg] = (replicate (cfg_count cfg) p, None)"
    by simp
qed

theorem buildPanels_two_texts_witness:
  "cfg_texts \<lparr>cfg_zone = ZONE_PAST, cfg_count = 2, cfg_radius = 240, cfg_yOffset = - 120,
              cfg_texts = [''memory'']\<rparr> = [''memory'']
   \<and> (\<exists>p. make_panel \<lparr>cfg_zone = ZONE_PAST, cfg_count = 2, cfg_radius = 240,
                       cfg_yOffset = - 120, cfg_texts = [''memory'']\<rparr> = Inr p
          \<and> texts p = [Some ''memory'', Some ''memory'']
          \<and> buildPanels [\<lparr>cfg_zone = ZONE_PAST, cfg_count = 2, cfg_radius = 240,
                           cfg_yOffset = - 120, cfg_texts = [''memory'']\<rparr>] = ([p, p], None))
   \<and> 2 \<le> length (texts (hd (fst (buildPanels PANEL_CONFIGS))))"
proof -
  let ?cfg = "\<lparr>cfg_zone = ZONE_PAST, cfg_count = 2, cfg_radius = 240, cfg_yOffset = - 120,
              cfg_texts = [''memory'']\<rparr>"
  have r: "replicate 2 p = [p, p]" for p :: panel by (simp add: numeral_2_eq_2)
  have one: "\<exists>p. make_panel ?cfg = Inr p \<and> texts p = [Some ''memory'', Some ''memory'']
          \<and> buildPanels [?cfg] = ([p, p], None)"
    using buildPanels_two_texts [of PANEL_CONFIGS ?cfg "''memory''"] by (simp add: r)
  have "length (fst (buildPanels PANEL_CONFIGS)) = 24" by (simp add: buildPanels_PANEL_CONFIGS)
  then have "fst (buildPanels PANEL_CONFIGS) \<noteq> []" by auto
  then have "hd (fst (buildPanels PANEL_CONFIGS)) \<in> set (fst (buildPanels PANEL_CONFIGS))"
    by (rule hd_in_set)
  with buildPanels_two_texts [of PANEL_CONFIGS ?cfg "''memory''"]
  have "2 \<le> length (texts (hd (fst (buildPanels PANEL_CONFIGS))))" by blast
  with one show ?thesis by simp
qed

subsection \<open>Triggering a flip\<close>

text \<open>
  Claim C3. On a panel whose flip is active, \<open>triggerFlip\<close> with any clock value, speed
  factor and axis returns the panel as it was: duration, start time, axis, active flag
  and current text index are those before the call.
\<close>

theorem triggerFlip_active_noop:
  assumes "active (flip p)"
  shows "triggerFlip now p speedFactor ax = p
         \<and> duration (flip (triggerFlip now p speedFactor ax)) = duration (flip p)
         \<and> start (flip (triggerFlip now p speedFactor ax)) = start (flip p)
         \<and> axis (flip (triggerFlip now p speedFactor ax)) = axis (flip p)
         \<and> active (flip (triggerFlip now p speedFactor ax)) = active (flip p)
         \<and> current (triggerFlip now p speedFactor ax) = current p"
  using assms by (simp add: triggerFlip_def)

theorem triggerFlip_active_noop_witness:
  "active (flip (triggerFlip 100 first_panel 2.2 ''x''))
   \<and> triggerFlip 250 (triggerFlip 100 first_panel 2.2 ''x'') 2.4 ''y''
       = triggerFlip 100 first_panel 2.2 ''x''
   \<and> start (flip (triggerFlip 250 (triggerFlip 100 first_panel 2.2 ''x'') 2.4 ''y'')) = 100
   \<and> axis (flip (triggerFlip 250 (triggerFlip 100 first_panel 2.2 ''x'') 2.4 ''y'')) = ''x''"
proof -
  have a: "active (flip (triggerFlip 100 first_panel 2.2 ''x''))"
    by (simp add: triggerFlip_def first_panel_def)
  have "start (flip (triggerFlip 100 first_panel 2.2 ''x'')) = 100"
    and "axis (flip (triggerFlip 100 first_panel 2.2 ''x'')) = ''x''"
    by (simp_all add: triggerFlip_def first_panel_def)
  with a triggerFlip_active_noop [OF a, of 250 "2.4" "''y''"] show ?thesis by simp
qed

lemma clamp_bounds: "a \<le> b \<Longrightarrow> a \<le> clamp v a b \<and> clamp v a b \<le> b"
  by (simp add: clamp_def)

lemma clamp_mono: "v \<le> v' \<Longrightarrow> clamp v a b \<le> clamp v' a b"
  by (auto simp add: clamp_def min_def max_def)

lemma triggerFlip_duration:
  assumes "\<not> active (flip p)" and "0 < speedFactor"
  shows "duration (flip (triggerFlip now p speedFactor ax)) = clamp (400 / speedFactor) 360 1100"
  using assms by (simp add: triggerFlip_def)

text \<open>
  Claim C4. On a panel whose flip is not active and for a positive speed factor,
  \<open>triggerFlip\<close> sets the duration to \<open>clamp (400 / speedFactor) 360 1100\<close>. The duration
  lies between 360 and 1100, and a larger speed factor never gives a longer duration.
\<close>

theorem triggerFlip_duration_clamped:
  assumes "\<not> active (flip p)" and "0 < speedFactor"
  shows "duration (flip (triggerFlip now p speedFactor ax)) = clamp (400 / speedFactor) 360 1100
         \<and> 360 \<le> duration (flip (triggerFlip now p speedFactor ax))
         \<and> duration (flip (triggerFlip now p speedFactor ax)) \<le> 1100
         \<and> (speedFactor \<le> speedFactor' \<longrightarrow>
              duration (flip (triggerFlip now p speedFactor' ax))
                \<le> duration (flip (triggerFlip now p speedFactor ax)))"
proof -
  have d: "duration (flip (triggerFlip now p speedFactor ax)) = clamp (400 / speedFactor) 360 1100"
    using assms by (rule triggerFlip_duration)
  have b: "360 \<le> clamp (400 / speedFactor) 360 1100 \<and> clamp (400 / speedFactor) 360 1100 \<le> 1100"
    by (rule clamp_bounds) simp
  have m: "duration (flip (triggerFlip now p speedFactor' ax))
                \<le> duration (flip (triggerFlip now p speedFactor ax))"
    if le: "speedFactor \<le> speedFactor'"
  proof -
    from le assms(2) have pos: "0 < speedFactor'" by simp
    have "400 / speedFactor' \<le> 400 / speedFactor"
      using le assms(2) by (simp add: frac_le)
    then have "clamp (400 / speedFactor') 360 1100 \<le> clamp (400 / speedFactor) 360 1100"
      by (rule clamp_mono)
    then show ?thesis
      using d triggerFlip_duration [OF assms(1) pos, of now ax] by simp
  qed
  from d b m show ?thesis by simp
qed

theorem triggerFlip_duration_clamped_witness:
  "\<not> active (flip first_panel) \<and> (0 :: real) < 1 / 2
   \<and> duration (flip (triggerFlip 100 first_panel (1 / 2) ''x'')) = 800
   \<and> duration (flip (triggerFlip 100 first_panel 2.2 ''x'')) = 360
   \<and> duration (flip (triggerFlip 100 first_panel 2.2 ''x''))
       \<le> duration (flip (triggerFlip 100 first_panel (1 / 2) ''x''))"
proof -
  have h1: "\<not> active (flip first_panel)" by (simp add: first_panel_def)
  have h2: "(0 :: real) < 1 / 2" by simp
  have "clamp (400 / (1 / 2)) 360 1100 = 800" by (simp add: clamp_def)
  moreover have "duration (flip (triggerFlip 100 first_panel 2.2 ''x'')) = 360"
    using h1 by (simp add: triggerFlip_def clamp_def)
  ultimately show ?thesis
    using h1 triggerFlip_duration_clamped [OF h1 h2, of 100 "''x''" "2.2"] by simp
qed

lemma triggerFlip_starts:
  assumes "panel_ok p" and "\<not> active (flip p)"
  shows "panel_ok (triggerFlip now p speedFactor ax)
         \<and> active (flip (triggerFlip now p speedFactor ax))
         \<and> \<not> swapped (triggerFlip now p speedFactor ax)
         \<and> start (flip (triggerFlip now p speedFactor ax)) = now"
  using assms by (auto simp add: triggerFlip_def panel_ok_def clamp_def)

subsection \<open>The life of a flip\<close>

lemma next_text_defined:
  assumes "panel_ok p"
  shows "\<exists>tv. js_index (texts p) ((current p + 1) mod length (texts p)) = Some tv"
proof -
  from assms have "0 < length (texts p)" by (simp add: panel_ok_def)
  then have lt: "(current p + 1) mod length (texts p) < length (texts p)"
    by (rule mod_less_divisor)
  with assms have "texts p ! ((current p + 1) mod length (texts p)) \<noteq> None"
    by (simp add: panel_ok_def list_all_length)
  with lt show ?thesis by (simp add: js_index_def)
qed

lemma updateFlip_inactive: "\<not> active (flip p) \<Longrightarrow> updateFlip now p = Inr p"
  by (simp add: updateFlip_def)

lemma updateFlip_effect:
  assumes "panel_ok p"
  shows "\<exists>p'. updateFlip now p = Inr p'
           \<and> texts p' = texts p \<and> zone p' = zone p
           \<and> start (flip p') = start (flip p) \<and> duration (flip p') = duration (flip p)
           \<and> axis (flip p') = axis (flip p)
           \<and> current p' = (if swap_fires now p then (current p + 1) mod length (texts p)
                            else current p)
           \<and> active (flip p') = (active (flip p) \<and> flip_progress now p < 1)
           \<and> swapped p' = (active (flip p) \<and> flip_progress now p < 1
                            \<and> (swapped p \<or> flip_progress now p \<ge> 0.5))"
proof (cases "active (flip p)")
  case False
  with assms show ?thesis
    by (auto simp add: updateFlip_inactive swap_fires_def panel_ok_def)
next
  case True
  from next_text_defined [OF assms] obtain tv
    where tx: "js_index (texts p) ((current p + 1) mod length (texts p)) = Some tv" ..
  show ?thesis
  proof (cases "swap_fires now p")
    case sw: True
    with True tx show ?thesis
      by (cases "flip_progress now p \<ge> 1")
         (auto simp add: updateFlip_def swap_fires_def Let_def)
  next
    case sw: False
    with True assms show ?thesis
      by (cases "flip_progress now p \<ge> 1")
         (auto simp add: updateFlip_def swap_fires_def Let_def panel_ok_def)
  qed
qed

lemma updateFlip_panel_ok:
  assumes "panel_ok p" and "updateFlip now p = Inr p'"
  shows "panel_ok p'"
proof -
  from updateFlip_effect [OF assms(1), of now] assms(2)
  have e: "texts p' = texts p" "duration (flip p') = duration (flip p)"
    "current p' = (if swap_fires now p then (current p + 1) mod length (texts p) else current p)"
    "active (flip p') = (active (flip p) \<and> flip_progress now p < 1)"
    "swapped p' = (active (flip p) \<and> flip_progress now p < 1
                            \<and> (swapped p \<or> flip_progress now p \<ge> 0.5))"
    by auto
  from assms(1) have "0 < length (texts p)" by (simp add: panel_ok_def)
  then have "(current p + 1) mod length (texts p) < length (texts p)"
    by (rule mod_less_divisor)
  with assms(1) e show ?thesis by (auto simp add: panel_ok_def)
qed

lemma flip_progress_kept:
  assumes "panel_ok p" and "updateFlip now p = Inr p'"
  shows "flip_progress t p' = flip_progress t p"
  using updateFlip_effect [OF assms(1), of now] assms(2)
  by (auto simp add: flip_progress_def)

text \<open>A panel with no active flip is left alone by any run.\<close>

lemma run_inactive:
  "\<not> active (flip p) \<Longrightarrow> updateFlip_run nows p = Inr p \<and> swap_count nows p = 0"
  by (induction nows) (simp_all add: updateFlip_inactive swap_fires_def)

text \<open>After the swap: the run only waits for the end of the flip.\<close>

lemma run_swapped:
  assumes "panel_ok p" and "active (flip p)" and "swapped p"
    and "\<exists>now \<in> set nows. flip_progress now p \<ge> 1"
  shows "\<exists>p'. updateFlip_run nows p = Inr p' \<and> current p' = current p
           \<and> texts p' = texts p
           \<and> \<not> active (flip p') \<and> \<not> swapped p' \<and> swap_count nows p = 0"
  using assms
proof (induction nows arbitrary: p)
  case Nil
  then show ?case by simp
next
  case (Cons now nows)
  from updateFlip_effect [OF Cons.prems(1), of now] obtain p1 where
    u: "updateFlip now p = Inr p1" and tx: "texts p1 = texts p"
    and cur: "current p1 = (if swap_fires now p then (current p + 1) mod length (texts p)
                            else current p)"
    and act: "active (flip p1) = (active (flip p) \<and> flip_progress now p < 1)"
    and swp: "swapped p1 = (active (flip p) \<and> flip_progress now p < 1
                            \<and> (swapped p \<or> flip_progress now p \<ge> 0.5))"
    by blast
  have nf: "\<not> swap_fires now p" using Cons.prems(3) by (simp add: swap_fires_def)
  have ok1: "panel_ok p1" using Cons.prems(1) u by (rule updateFlip_panel_ok)
  show ?case
  proof (cases "flip_progress now p \<ge> 1")
    case True
    with act swp have "\<not> active (flip p1)" "\<not> swapped p1" by auto
    with run_inactive [of p1 nows] u nf cur tx show ?thesis by simp
  next
    case False
    with act swp Cons.prems have a1: "active (flip p1)" and s1: "swapped p1" by auto
    from False Cons.prems(4) have "\<exists>t \<in> set nows. flip_progress t p \<ge> 1" by auto
    then have "\<exists>t \<in> set nows. flip_progress t p1 \<ge> 1"
      by (simp add: flip_progress_kept [OF Cons.prems(1) u])
    from Cons.IH [OF ok1 a1 s1 this] u nf cur tx show ?thesis by simp
  qed
qed

text \<open>A whole flip: from the start, through the swap, to the end.\<close>

lemma run_lifecycle:
  assumes "panel_ok p" and "active (flip p)" and "\<not> swapped p"
    and "\<exists>now \<in> set nows. flip_progress now p \<ge> 1"
  shows "\<exists>p'. updateFlip_run nows p = Inr p'
           \<and> current p' = (current p + 1) mod length (texts p)
           \<and> \<not> active (flip p') \<and> \<not> swapped p' \<and> swap_count nows p = 1"
  using assms
proof (induction nows arbitrary: p)
  case Nil
  then show ?case by simp
next
  case (Cons now nows)
  from updateFlip_effect [OF Cons.prems(1), of now] obtain p1 where
    u: "updateFlip now p = Inr p1" and tx: "texts p1 = texts p"
    and cur: "current p1 = (if swap_fires now p then (current p + 1) mod length (texts p)
                            else current p)"
    and act: "active (flip p1) = (active (flip p) \<and> flip_progress now p < 1)"
    and swp: "swapped p1 = (active (flip p) \<and> flip_progress now p < 1
                            \<and> (swapped p \<or> flip_progress now p \<ge> 0.5))"
    by blast
  have ok1: "panel_ok p1" using Cons.prems(1) u by (rule updateFlip_panel_ok)
  have later: "\<exists>t \<in> set nows. flip_progress t p1 \<ge> 1" if "\<not> flip_progress now p \<ge> 1"
  proof -
    from that Cons.prems(4) have "\<exists>t \<in> set nows. flip_progress t p \<ge> 1" by auto
    then show ?thesis by (simp add: flip_progress_kept [OF Cons.prems(1) u])
  qed
  consider (finish) "flip_progress now p \<ge> 1"
    | (swap) "flip_progress now p < 1" "flip_progress now p \<ge> 0.5"
    | (wait) "flip_progress now p < 0.5"
    by linarith
  then show ?case
  proof cases
    case finish
    then have f: "swap_fires now p" using Cons.prems by (simp add: swap_fires_def)
    from finish act swp have "\<not> active (flip p1)" "\<not> swapped p1" by auto
    with run_inactive [of p1 nows] u f cur show ?thesis by simp
  next
    case swap
    then have f: "swap_fires now p" using Cons.prems by (simp add: swap_fires_def)
    from swap act swp Cons.prems have a1: "active (flip p1)" and s1: "swapped p1" by auto
    from swap have "\<not> flip_progress now p \<ge> 1" by simp
    from run_swapped [OF ok1 a1 s1 later [OF this]] u f cur show ?thesis by auto
  next
    case wait
    then have f: "\<not> swap_fires now p" by (simp add: swap_fires_def)
    from wait act swp Cons.prems have a1: "active (flip p1)" and s1: "\<not> swapped p1" by auto
    from wait have "\<not> flip_progress now p \<ge> 1" by simp
    from Cons.IH [OF ok1 a1 s1 later [OF this]] u f cur tx show ?thesis by simp
  qed
qed

text \<open>The loop over the panels treats every panel on its own.\<close>

lemma updateFlips_pointwise:
  assumes "list_all panel_ok ps"
  shows "\<exists>ps'. updateFlips now ps = Inr ps' \<and> length ps' = length ps
           \<and> list_all panel_ok ps'
           \<and> (\<forall>i < length ps. updateFlip now (ps ! i) = Inr (ps' ! i))"
  using assms
proof (induction ps)
  case Nil
  then show ?case by simp
next
  case (Cons p ps)
  then have okp: "panel_ok p" and okps: "list_all panel_ok ps" by simp_all
  from updateFlip_effect [OF okp, of now] obtain p' where u: "updateFlip now p = Inr p'"
    by blast
  from Cons.IH [OF okps] obtain ps' where
    us: "updateFlips now ps = Inr ps'" and len: "length ps' = length ps"
    and ok': "list_all panel_ok ps'"
    and pt: "\<forall>i < length ps. updateFlip now (ps ! i) = Inr (ps' ! i)"
    by blast
  have "\<forall>i < length (p # ps). updateFlip now ((p # ps) ! i) = Inr ((p' # ps') ! i)"
  proof (intro allI impI)
    fix i assume "i < length (p # ps)"
    then show "updateFlip now ((p # ps) ! i) = Inr ((p' # ps') ! i)"
      using u pt by (cases i) auto
  qed
  with u us len ok' updateFlip_panel_ok [OF okp u] show ?case by simp
qed

lemma updateFlips_run_pointwise:
  assumes "list_all panel_ok ps"
  shows "\<exists>ps'. updateFlips_run nows ps = Inr ps' \<and> length ps' = length ps
           \<and> (\<forall>i < length ps. updateFlip_run nows (ps ! i) = Inr (ps' ! i))"
  using assms
proof (induction nows arbitrary: ps)
  case Nil
  then show ?case by simp
next
  case (Cons now nows)
  from updateFlips_pointwise [OF Cons.prems, of now] obtain ps1 where
    u: "updateFlips now ps = Inr ps1" and len: "length ps1 = length ps"
    and ok1: "list_all panel_ok ps1"
    and pt: "\<forall>i < length ps. updateFlip now (ps ! i) = Inr (ps1 ! i)"
    by blast
  from Cons.IH [OF ok1] obtain ps' where
    r: "updateFlips_run nows ps1 = Inr ps'" and len': "length ps' = length ps1"
    and pt': "\<forall>i < length ps1. updateFlip_run nows (ps1 ! i) = Inr (ps' ! i)"
    by blast
  from u r len len' pt pt' show ?case by simp
qed

text \<open>
  Claim C2. Take well-formed panels, one of them with an active flip that has not
  swapped yet, and call \<open>updateFlips\<close> at the times of a list in which the progress of
  that flip reaches 1. No call faults; afterwards the current text index of the panel is
  one step further, modulo the number of texts; the flip is not active and the one-shot
  flag is reset; and along the run the swap branch was taken exactly once.
\<close>

theorem flip_lifecycle_swaps_once:
  assumes "list_all panel_ok ps" and "i < length ps"
    and "active (flip (ps ! i))" and "\<not> swapped (ps ! i)"
    and "\<exists>now \<in> set nows. flip_progress now (ps ! i) \<ge> 1"
  shows "\<exists>ps'. updateFlips_run nows ps = Inr ps' \<and> length ps' = length ps
           \<and> current (ps' ! i) = (current (ps ! i) + 1) mod length (texts (ps ! i))
           \<and> \<not> active (flip (ps' ! i)) \<and> \<not> swapped (ps' ! i)
           \<and> swap_count nows (ps ! i) = 1"
proof -
  from assms(1,2) have ok: "panel_ok (ps ! i)" by (simp add: list_all_length)
  from run_lifecycle [OF ok assms(3,4,5)] obtain p' where
    "updateFlip_run nows (ps ! i) = Inr p'"
    "current p' = (current (ps ! i) + 1) mod length (texts (ps ! i))"
    "\<not> active (flip p')" "\<not> swapped p'" "swap_count nows (ps ! i) = 1"
    by blast
  with updateFlips_run_pointwise [OF assms(1), of nows] assms(2) show ?thesis by auto
qed

theorem flip_lifecycle_swaps_once_witness:
  "list_all panel_ok [triggerFlip 100 first_panel (1 / 2) ''x'']
   \<and> active (flip ([triggerFlip 100 first_panel (1 / 2) ''x''] ! 0))
   \<and> \<not> swapped ([triggerFlip 100 first_panel (1 / 2) ''x''] ! 0)
   \<and> flip_progress 900 ([triggerFlip 100 first_panel (1 / 2) ''x''] ! 0) \<ge> 1
   \<and> (\<exists>ps'. updateFlips_run [116, 500, 516, 900, 916]
                  [triggerFlip 100 first_panel (1 / 2) ''x''] = Inr ps'
            \<and> length ps' = 1 \<and> current (ps' ! 0) = 1
            \<and> \<not> active (flip (ps' ! 0)) \<and> \<not> swapped (ps' ! 0))
   \<and> swap_count [116, 500, 516, 900, 916] ([triggerFlip 100 first_panel (1 / 2) ''x''] ! 0) = 1"
proof -
  let ?p = "triggerFlip 100 first_panel (1 / 2) ''x''"
  let ?nows = "[116, 500, 516, 900, 916] :: real list"
  have na: "\<not> active (flip first_panel)" by (simp add: first_panel_def)
  from triggerFlip_starts [OF first_panel_ok na, of 100 "1 / 2" "''x''"]
  have ok: "list_all panel_ok [?p]" and a: "active (flip ([?p] ! 0))"
    and s: "\<not> swapped ([?p] ! 0)"
    by simp_all
  have pr: "flip_progress 900 ([?p] ! 0) \<ge> 1"
    using na by (simp add: flip_progress_def triggerFlip_def clamp_def)
  then have ex: "\<exists>now \<in> set ?nows. flip_progress now ([?p] ! 0) \<ge> 1"
    by simp
  have i: "0 < length [?p]" by simp
  have c: "(current ([?p] ! 0) + 1) mod length (texts ([?p] ! 0)) = 1"
    using na by (simp add: triggerFlip_def first_panel_def)
  from flip_lifecycle_swaps_once [OF ok i a s ex] obtain ps' where
    r: "updateFlips_run ?nows [?p] = Inr ps'" and l: "length ps' = length [?p]"
    and cu: "current (ps' ! 0) = (current ([?p] ! 0) + 1) mod length (texts ([?p] ! 0))"
    and fin: "\<not> active (flip (ps' ! 0))" "\<not> swapped (ps' ! 0)"
    and n: "swap_count ?nows ([?p] ! 0) = 1"
    by blast
  from l have l1: "length ps' = 1" by simp
  from cu c have c1: "current (ps' ! 0) = 1" by (simp only:)
  from r l1 c1 fin
  have "\<exists>ps'. updateFlips_run ?nows [?p] = Inr ps'
            \<and> length ps' = 1 \<and> current (ps' ! 0) = 1
            \<and> \<not> active (flip (ps' ! 0)) \<and> \<not> swapped (ps' ! 0)"
    by blast
  with ok a s pr n show ?thesis by (intro conjI)
qed

subsection \<open>Idle auto-flips\<close>

lemma pick_panel_in_range:
  assumes "ps \<noteq> []" and "0 \<le> r" and "r < 1"
  shows "\<exists>i. pick_panel r ps = Inr i \<and> i < length ps"
proof -
  let ?n = "real (length ps)"
  from assms(1) have n: "0 < ?n" by simp
  with assms(2) have "0 \<le> r * ?n" by simp
  then have lo: "0 \<le> \<lfloor>r * ?n\<rfloor>" by simp
  from assms(3) n have "r * ?n < ?n" by simp
  then have "\<lfloor>r * ?n\<rfloor> < int (length ps)" by (simp add: floor_less_iff)
  with lo have "nat \<lfloor>r * ?n\<rfloor> < length ps" by linarith
  with lo show ?thesis by (simp add: pick_panel_def Let_def)
qed

lemma animate_timer:
  assumes "animate now r s = Inr s'"
  shows "lastAutoFlip s' = (if \<not> engine_paused s \<and> auto_flip_due now s then now
                            else lastAutoFlip s)
         \<and> lastInteraction s' = lastInteraction s
         \<and> engine_paused s' = engine_paused s"
proof (cases "engine_paused s")
  case True
  with assms show ?thesis by (simp add: animate_def)
next
  case False
  show ?thesis
  proof (cases "updateFlips now (panels s)")
    case (Inl err)
    with False assms show ?thesis by (simp add: animate_def)
  next
    case (Inr ps)
    have due: "auto_flip_due now (s\<lparr>panels := ps\<rparr>) = auto_flip_due now s"
      by (simp add: auto_flip_due_def)
    show ?thesis
    proof (cases "auto_flip_due now s")
      case d: False
      with False Inr assms due show ?thesis by (auto simp add: animate_def Let_def)
    next
      case d: True
      show ?thesis
      proof (cases "chance_roll r < 0.55")
        case c: False
        with d False Inr assms due show ?thesis by (auto simp add: animate_def Let_def)
      next
        case c: True
        show ?thesis
        proof (cases "pick_panel (pick_roll r) ps")
          case (Inl err)
          with c d False Inr assms due show ?thesis by (simp add: animate_def Let_def)
        next
          case pk: (Inr i)
          with c d False Inr assms due show ?thesis by (auto simp add: animate_def Let_def)
        qed
      qed
    qed
  qed
qed

lemma animate_returns:
  assumes "list_all panel_ok (panels s)" and "panels s \<noteq> []"
    and "0 \<le> pick_roll r" and "pick_roll r < 1"
  shows "\<exists>s'. animate now r s = Inr s'"
proof -
  from updateFlips_pointwise [OF assms(1), of now] obtain ps where
    u: "updateFlips now (panels s) = Inr ps" and len: "length ps = length (panels s)"
    by blast
  from len assms(2) have "ps \<noteq> []" by auto
  from pick_panel_in_range [OF this assms(3,4)] obtain i where
    "pick_panel (pick_roll r) ps = Inr i" by blast
  with u show ?thesis by (simp add: animate_def Let_def)
qed

lemma attempts_guard:
  assumes "attempts e s"
  shows "event_time e - lastInteraction s > IDLE_THRESHOLD
         \<and> event_time e - lastAutoFlip s > AUTO_FLIP_INTERVAL"
  using assms
  by (cases e) (auto simp add: auto_flip_due_def split: sum.splits)

lemma step_timer:
  assumes "step e s = Inr s'"
  shows "lastAutoFlip s' = (if attempts e s then event_time e else lastAutoFlip s)"
proof (cases e)
  case (Animate now r)
  with assms have a: "animate now r s = Inr s'" by simp
  then have "engine_paused s \<or> (\<exists>ps. updateFlips now (panels s) = Inr ps)"
    by (auto simp add: animate_def split: sum.splits if_splits)
  with animate_timer [OF a] Animate show ?thesis by auto
next
  case (PointerMove t)
  with assms show ?thesis by auto
next
  case (PointerDown t hit a)
  with assms show ?thesis by (auto split: option.splits if_splits)
next
  case PauseBtn
  with assms show ?thesis by auto
next
  case (RandomBtn t pick a)
  with assms show ?thesis by (auto split: sum.splits)
qed

lemma attempt_times_spaced:
  "successively (\<lambda>a b. b - a > AUTO_FLIP_INTERVAL) (lastAutoFlip s # attempt_times s es)"
proof (induction es arbitrary: s)
  case Nil
  show ?case by simp
next
  case (Cons e es)
  show ?case
  proof (cases "step e s")
    case (Inl err)
    then show ?thesis using attempts_guard [of e s] by simp
  next
    case (Inr s')
    from step_timer [OF Inr]
    have t: "lastAutoFlip s' = (if attempts e s then event_time e else lastAutoFlip s)" .
    show ?thesis
    proof (cases "attempts e s")
      case True
      with t Inr Cons.IH [of s'] attempts_guard [of e s] show ?thesis by simp
    next
      case False
      with t Inr Cons.IH [of s'] show ?thesis by simp
    qed
  qed
qed

lemma updateFlip_no_start:
  assumes "updateFlip now p = Inr p'"
  shows "active (flip p') \<longrightarrow> active (flip p)"
proof (cases "active (flip p)")
  case True
  then show ?thesis by simp
next
  case False
  with assms show ?thesis by (simp add: updateFlip_def)
qed

lemma updateFlips_no_start:
  assumes "updateFlips now ps = Inr ps'"
  shows "length ps' = length ps
         \<and> (\<forall>i < length ps. active (flip (ps' ! i)) \<longrightarrow> active (flip (ps ! i)))"
  using assms
proof (induction ps arbitrary: ps')
  case Nil
  then show ?case by simp
next
  case (Cons p ps)
  from Cons.prems obtain p1 ps1 where u: "updateFlip now p = Inr p1"
    and us: "updateFlips now ps = Inr ps1" and eq: "ps' = p1 # ps1"
    by (auto split: sum.splits)
  from Cons.IH [OF us] have len: "length ps1 = length ps"
    and ih: "\<forall>i < length ps. active (flip (ps1 ! i)) \<longrightarrow> active (flip (ps ! i))"
    by simp_all
  have "\<forall>i < length (p # ps). active (flip ((p1 # ps1) ! i)) \<longrightarrow> active (flip ((p # ps) ! i))"
  proof (intro allI impI)
    fix i assume "i < length (p # ps)" and "active (flip ((p1 # ps1) ! i))"
    then show "active (flip ((p # ps) ! i))"
      using updateFlip_no_start [OF u] ih by (cases i) auto
  qed
  with len eq show ?case by simp
qed

lemma pick_panel_index: "pick_panel x ps = Inr i \<Longrightarrow> i < length ps"
  by (auto simp add: pick_panel_def Let_def split: if_splits)

lemma animate_outside_guard:
  assumes "animate now r s = Inr s'" and "\<not> (\<not> engine_paused s \<and> auto_flip_due now s)"
  shows "(engine_paused s \<longrightarrow> s' = s)
         \<and> (\<not> engine_paused s \<longrightarrow>
              updateFlips now (panels s) = Inr (panels s') \<and> s' = s\<lparr>panels := panels s'\<rparr>)"
proof (cases "engine_paused s")
  case True
  with assms(1) show ?thesis by (simp add: animate_def)
next
  case False
  with assms(2) have nd: "\<not> auto_flip_due now s" by simp
  show ?thesis
  proof (cases "updateFlips now (panels s)")
    case (Inl err)
    with False assms(1) show ?thesis by (simp add: animate_def)
  next
    case (Inr ps)
    have "auto_flip_due now (s\<lparr>panels := ps\<rparr>) = auto_flip_due now s"
      by (simp add: auto_flip_due_def)
    with nd False Inr assms(1) show ?thesis by (auto simp add: animate_def Let_def)
  qed
qed

lemma animate_inside_guard:
  assumes "animate now r s = Inr s'" and "\<not> engine_paused s" and "auto_flip_due now s"
  shows "\<exists>ps. updateFlips now (panels s) = Inr ps
           \<and> (chance_roll r < 0.55 \<longrightarrow>
                (\<exists>i. pick_panel (pick_roll r) ps = Inr i \<and> i < length ps
                   \<and> s' = s\<lparr>panels :=
                              ps[i := triggerFlip (trigger_clock r) (ps ! i)
                                        (clamp (0.5 + speed_roll r * 2.5) 0.6 3.2)
                                        (if axis_roll r < 0.5 then ''x'' else ''y'')],
                            lastAutoFlip := now\<rparr>))
           \<and> (\<not> chance_roll r < 0.55 \<longrightarrow> s' = s\<lparr>panels := ps, lastAutoFlip := now\<rparr>)"
proof (cases "updateFlips now (panels s)")
  case (Inl err)
  with assms show ?thesis by (simp add: animate_def)
next
  case (Inr ps)
  have due: "auto_flip_due now (s\<lparr>panels := ps\<rparr>)"
    using assms(3) by (simp add: auto_flip_due_def)
  show ?thesis
  proof (cases "chance_roll r < 0.55")
    case False
    with due Inr assms show ?thesis by (auto simp add: animate_def Let_def)
  next
    case True
    show ?thesis
    proof (cases "pick_panel (pick_roll r) ps")
      case (Inl err)
      with True due Inr assms show ?thesis by (simp add: animate_def Let_def)
    next
      case pk: (Inr i)
      from pick_panel_index [OF pk] have "i < length ps" .
      with pk True due Inr assms show ?thesis by (auto simp add: animate_def Let_def)
    qed
  qed
qed

text \<open>
  Claim C6, as stated, fails at the boundary: both comparisons in \<open>animate\<close> are strict.
  With an idle time of exactly 5000 ms and 10000 ms since the last attempt, the frame
  makes no attempt and leaves the timer alone, though the chance draw would have flipped.
\<close>

theorem idle_auto_flip_boundary_counterexample:
  "IDLE_THRESHOLD \<le> 10000 - lastInteraction
       \<lparr>panels = [first_panel], lastInteraction = 5000, lastAutoFlip = 0, engine_paused = False\<rparr>
   \<and> AUTO_FLIP_INTERVAL \<le> 10000 - lastAutoFlip
       \<lparr>panels = [first_panel], lastInteraction = 5000, lastAutoFlip = 0, engine_paused = False\<rparr>
   \<and> animate 10000
        \<lparr>chance_roll = 1 / 5, pick_roll = 0, speed_roll = 1 / 2, axis_roll = 3 / 4, trigger_clock = 10000\<rparr>
        \<lparr>panels = [first_panel], lastInteraction = 5000, lastAutoFlip = 0, engine_paused = False\<rparr>
      = Inr \<lparr>panels = [first_panel], lastInteraction = 5000, lastAutoFlip = 0,
             engine_paused = False\<rparr>
   \<and> lastAutoFlip
        \<lparr>panels = [first_panel], lastInteraction = 5000, lastAutoFlip = 0, engine_paused = False\<rparr>
      \<noteq> 10000"
proof -
  have u: "updateFlips 10000 [first_panel] = Inr [first_panel]"
    by (simp add: updateFlip_def first_panel_def)
  show ?thesis
    by (simp add: animate_def u auto_flip_due_def IDLE_THRESHOLD_def AUTO_FLIP_INTERVAL_def
          del: updateFlips.simps)
qed

text \<open>
  Claim C6, amended. A frame that returns resets the auto-flip timer to the current time
  exactly when it is not paused, the idle time is more than 5000 ms and more than
  1400 ms have passed since the last reset, whatever the random draws are; otherwise it
  leaves the timer alone. Outside these conditions the frame does nothing but
  \<open>updateFlips\<close> (nothing at all when paused), so it starts no flip; under them it
  triggers one flip on the drawn panel when the chance draw is below 0.55 and none
  otherwise. With well-formed panels, at least one of them, and a panel draw in
  \<open>[0, 1)\<close> the frame returns. So an attempt comes with an idle time of more than
  5000 ms and more than 1400 ms after the last one, it is the one kind of event that
  changes the timer, and along any sequence of events successive attempts are more than
  1400 ms apart.
\<close>

theorem idle_auto_flip_timer:
  "(animate now r s = Inr s' \<longrightarrow>
      lastAutoFlip s' =
        (if \<not> engine_paused s \<and> now - lastInteraction s > 5000 \<and> now - lastAutoFlip s > 1400
         then now else lastAutoFlip s))
   \<and> (animate now r s = Inr s'
        \<and> \<not> (\<not> engine_paused s \<and> now - lastInteraction s > 5000 \<and> now - lastAutoFlip s > 1400)
        \<longrightarrow> (engine_paused s \<longrightarrow> s' = s)
          \<and> (\<not> engine_paused s \<longrightarrow>
                updateFlips now (panels s) = Inr (panels s') \<and> s' = s\<lparr>panels := panels s'\<rparr>)
          \<and> length (panels s') = length (panels s)
          \<and> (\<forall>i < length (panels s).
                active (flip (panels s' ! i)) \<longrightarrow> active (flip (panels s ! i))))
   \<and> (animate now r s = Inr s'
        \<and> \<not> engine_paused s \<and> now - lastInteraction s > 5000 \<and> now - lastAutoFlip s > 1400
        \<longrightarrow> (\<exists>ps. updateFlips now (panels s) = Inr ps
              \<and> (chance_roll r < 0.55 \<longrightarrow>
                   (\<exists>i. pick_panel (pick_roll r) ps = Inr i \<and> i < length ps
                      \<and> s' = s\<lparr>panels :=
                                 ps[i := triggerFlip (trigger_clock r) (ps ! i)
                                           (clamp (0.5 + speed_roll r * 2.5) 0.6 3.2)
                                           (if axis_roll r < 0.5 then ''x'' else ''y'')],
                               lastAutoFlip := now\<rparr>))
              \<and> (\<not> chance_roll r < 0.55 \<longrightarrow> s' = s\<lparr>panels := ps, lastAutoFlip := now\<rparr>)))
   \<and> (list_all panel_ok (panels s) \<and> panels s \<noteq> [] \<and> 0 \<le> pick_roll r \<and> pick_roll r < 1
        \<longrightarrow> (\<exists>s'. animate now r s = Inr s'))
   \<and> (attempts e s \<longrightarrow>
        event_time e - lastInteraction s > 5000 \<and> event_time e - lastAutoFlip s > 1400)
   \<and> (step e s = Inr s' \<longrightarrow> (attempts e s \<longleftrightarrow> lastAutoFlip s' \<noteq> lastAutoFlip s))
   \<and> successively (\<lambda>a b. b - a > 1400) (lastAutoFlip s # attempt_times s es)"
proof (intro conjI impI)
  assume "animate now r s = Inr s'"
  from animate_timer [OF this]
  show "lastAutoFlip s' =
        (if \<not> engine_paused s \<and> now - lastInteraction s > 5000 \<and> now - lastAutoFlip s > 1400
         then now else lastAutoFlip s)"
    by (simp add: auto_flip_due_def IDLE_THRESHOLD_def AUTO_FLIP_INTERVAL_def)
next
  assume a: "animate now r s = Inr s'
        \<and> \<not> (\<not> engine_paused s \<and> now - lastInteraction s > 5000 \<and> now - lastAutoFlip s > 1400)"
  then have g: "\<not> (\<not> engine_paused s \<and> auto_flip_due now s)"
    by (simp add: auto_flip_due_def IDLE_THRESHOLD_def AUTO_FLIP_INTERVAL_def)
  from a have r: "animate now r s = Inr s'" by simp
  from animate_outside_guard [OF r g]
  have p: "engine_paused s \<longrightarrow> s' = s"
    and u: "\<not> engine_paused s \<longrightarrow>
              updateFlips now (panels s) = Inr (panels s') \<and> s' = s\<lparr>panels := panels s'\<rparr>"
    by simp_all
  from p show "engine_paused s \<Longrightarrow> s' = s" by simp
  from u show "\<not> engine_paused s \<Longrightarrow> updateFlips now (panels s) = Inr (panels s')" by simp
  from u show "\<not> engine_paused s \<Longrightarrow> s' = s\<lparr>panels := panels s'\<rparr>" by simp
  have both: "length (panels s') = length (panels s)
         \<and> (\<forall>i < length (panels s).
                active (flip (panels s' ! i)) \<longrightarrow> active (flip (panels s ! i)))"
  proof (cases "engine_paused s")
    case True
    with p show ?thesis by simp
  next
    case False
    with u have "updateFlips now (panels s) = Inr (panels s')" by simp
    then show ?thesis by (rule updateFlips_no_start)
  qed
  from both show "length (panels s') = length (panels s)" by simp
  from both show "\<forall>i < length (panels s).
                active (flip (panels s' ! i)) \<longrightarrow> active (flip (panels s ! i))" by simp
next
  assume a: "animate now r s = Inr s'
        \<and> \<not> engine_paused s \<and> now - lastInteraction s > 5000 \<and> now - lastAutoFlip s > 1400"
  then have d: "auto_flip_due now s"
    by (simp add: auto_flip_due_def IDLE_THRESHOLD_def AUTO_FLIP_INTERVAL_def)
  from a have r: "animate now r s = Inr s'" and np: "\<not> engine_paused s" by simp_all
  from animate_inside_guard [OF r np d]
  show "\<exists>ps. updateFlips now (panels s) = Inr ps
              \<and> (chance_roll r < 0.55 \<longrightarrow>
                   (\<exists>i. pick_panel (pick_roll r) ps = Inr i \<and> i < length ps
                      \<and> s' = s\<lparr>panels :=
                                 ps[i := triggerFlip (trigger_clock r) (ps ! i)
                                           (clamp (0.5 + speed_roll r * 2.5) 0.6 3.2)
                                           (if axis_roll r < 0.5 then ''x'' else ''y'')],
                               lastAutoFlip := now\<rparr>))
              \<and> (\<not> chance_roll r < 0.55 \<longrightarrow> s' = s\<lparr>panels := ps, lastAutoFlip := now\<rparr>)" .
next
  assume "list_all panel_ok (panels s) \<and> panels s \<noteq> [] \<and> 0 \<le> pick_roll r \<and> pick_roll r < 1"
  then show "\<exists>s'. animate now r s = Inr s'" using animate_returns by blast
next
  assume a: "attempts e s"
  from attempts_guard [OF a] show "event_time e - lastInteraction s > 5000"
    by (simp add: IDLE_THRESHOLD_def)
  from attempts_guard [OF a] show "event_time e - lastAutoFlip s > 1400"
    by (simp add: AUTO_FLIP_INTERVAL_def)
next
  assume st: "step e s = Inr s'"
  from step_timer [OF st]
  have t: "lastAutoFlip s' = (if attempts e s then event_time e else lastAutoFlip s)" .
  show "attempts e s \<longleftrightarrow> lastAutoFlip s' \<noteq> lastAutoFlip s"
  proof (cases "attempts e s")
    case True
    from attempts_guard [OF True] have "event_time e \<noteq> lastAutoFlip s"
      by (auto simp add: AUTO_FLIP_INTERVAL_def)
    with True t show ?thesis by simp
  next
    case False
    with t show ?thesis by simp
  qed
next
  from attempt_times_spaced [of s es]
  show "successively (\<lambda>a b. b - a > 1400) (lastAutoFlip s # attempt_times s es)"
    by (simp add: AUTO_FLIP_INTERVAL_def)
qed

theorem idle_auto_flip_timer_witness:
  "animate 10000
        \<lparr>chance_roll = 3 / 4, pick_roll = 0, speed_roll = 1 / 2, axis_roll = 3 / 4, trigger_clock = 10000\<rparr>
        \<lparr>panels = [first_panel], lastInteraction = 4000, lastAutoFlip = 0, engine_paused = False\<rparr>
      = Inr \<lparr>panels = [first_panel], lastInteraction = 4000, lastAutoFlip = 10000,
             engine_paused = False\<rparr>
   \<and> animate 10000
        \<lparr>chance_roll = 3 / 4, pick_roll = 0, speed_roll = 1 / 2, axis_roll = 3 / 4, trigger_clock = 10000\<rparr>
        \<lparr>panels = [first_panel], lastInteraction = 6000, lastAutoFlip = 0, engine_paused = False\<rparr>
      = Inr \<lparr>panels = [first_panel], lastInteraction = 6000, lastAutoFlip = 0,
             engine_paused = False\<rparr>
   \<and> attempt_times
        \<lparr>panels = [first_panel], lastInteraction = 4000, lastAutoFlip = 0, engine_paused = False\<rparr>
        [Animate 10000 \<lparr>chance_roll = 3 / 4, pick_roll = 0, speed_roll = 1 / 2, axis_roll = 3 / 4,
                        trigger_clock = 10000\<rparr>,
         Animate 10016 \<lparr>chance_roll = 3 / 4, pick_roll = 0, speed_roll = 1 / 2, axis_roll = 3 / 4,
                        trigger_clock = 10016\<rparr>,
         Animate 11500 \<lparr>chance_roll = 3 / 4, pick_roll = 0, speed_roll = 1 / 2, axis_roll = 3 / 4,
                        trigger_clock = 11500\<rparr>]
      = [10000, 11500]
   \<and> successively (\<lambda>a b. b - a > 1400) [0, 10000, 11500 :: real]"
proof -
  let ?r = "\<lambda>t. \<lparr>chance_roll = 3 / 4, pick_roll = 0, speed_roll = 1 / 2, axis_roll = 3 / 4,
                 trigger_clock = t\<rparr>"
  let ?s = "\<lparr>panels = [first_panel], lastInteraction = 4000, lastAutoFlip = 0,
             engine_paused = False\<rparr>"
  let ?s' = "\<lparr>panels = [first_panel], lastInteraction = 4000, lastAutoFlip = 10000,
             engine_paused = False\<rparr>"
  let ?s'' = "\<lparr>panels = [first_panel], lastInteraction = 4000, lastAutoFlip = 11500,
             engine_paused = False\<rparr>"
  let ?b = "\<lparr>panels = [first_panel], lastInteraction = 6000, lastAutoFlip = 0,
             engine_paused = False\<rparr>"
  have u: "updateFlips t [first_panel] = Inr [first_panel]" for t
    by (simp add: updateFlip_def first_panel_def)
  have a1: "animate 10000 (?r 10000) ?s = Inr ?s'"
    by (simp add: animate_def u auto_flip_due_def IDLE_THRESHOLD_def AUTO_FLIP_INTERVAL_def
          del: updateFlips.simps)
  have a2: "animate 10016 (?r 10016) ?s' = Inr ?s'"
    by (simp add: animate_def u auto_flip_due_def IDLE_THRESHOLD_def AUTO_FLIP_INTERVAL_def
          del: updateFlips.simps)
  have a3: "animate 11500 (?r 11500) ?s' = Inr ?s''"
    by (simp add: animate_def u auto_flip_due_def IDLE_THRESHOLD_def AUTO_FLIP_INTERVAL_def
          del: updateFlips.simps)
  have b: "\<exists>s'. animate 10000 (?r 10000) ?b = Inr s'"
    using idle_auto_flip_timer [of 10000 "?r 10000" ?b] first_panel_ok by simp
  then obtain b' where b': "animate 10000 (?r 10000) ?b = Inr b'" ..
  from idle_auto_flip_timer [of 10000 "?r 10000" ?b b'] b'
  have "updateFlips 10000 (panels ?b) = Inr (panels b')" and "b' = ?b\<lparr>panels := panels b'\<rparr>"
    by simp_all
  with u [of 10000] have "b' = ?b" by simp
  with b' have a4: "animate 10000 (?r 10000) ?b = Inr ?b" by simp
  have t: "attempt_times ?s [Animate 10000 (?r 10000), Animate 10016 (?r 10016),
                             Animate 11500 (?r 11500)] = [10000, 11500]"
    by (simp add: a1 a2 a3 u auto_flip_due_def IDLE_THRESHOLD_def AUTO_FLIP_INTERVAL_def
          del: updateFlips.simps)
  from idle_auto_flip_timer
         [of 10000 "?r 10000" ?s ?s' "Animate 10000 (?r 10000)"
             "[Animate 10000 (?r 10000), Animate 10016 (?r 10016), Animate 11500 (?r 11500)]"]
       a1 a4 t
  show ?thesis by simp
qed

end
